theory Spec2Isabelle
  imports Complex_Main "HOL-Library.Word"
begin

section \<open>Element values and the vector intrinsics\<close>

text \<open>
  The tensors hold \<open>float\<close> elements. A value is a finite number, an infinity or a
  NaN; rounding and overflow are left out (a finite result of finite operands is the
  exact real, of any size), the special values follow IEEE 754. The exponent \<open>p\<close> is
  such a value too, so \<open>p = +\<infinity>\<close> is \<open>PInf\<close>. Statements about all inputs are
  therefore kept to what does not depend on the rounding of a finite result: which of
  the special values a result is, whether it is zero, and values at inputs where every
  intermediate result is far from the limits of the type.
\<close>

type_synonym u32 = "32 word"
type_synonym u64 = "64 word"

datatype fval = Fin real | PInf | NInf | NaN

fun fadd :: "fval \<Rightarrow> fval \<Rightarrow> fval" where
  "fadd (Fin a) (Fin b) = Fin (a + b)"
| "fadd NaN _ = NaN"
| "fadd _ NaN = NaN"
| "fadd PInf NInf = NaN"
| "fadd NInf PInf = NaN"
| "fadd PInf _ = PInf"
| "fadd _ PInf = PInf"
| "fadd NInf _ = NInf"
| "fadd _ NInf = NInf"

fun fsub :: "fval \<Rightarrow> fval \<Rightarrow> fval" where
  "fsub (Fin a) (Fin b) = Fin (a - b)"
| "fsub NaN _ = NaN"
| "fsub _ NaN = NaN"
| "fsub PInf PInf = NaN"
| "fsub NInf NInf = NaN"
| "fsub PInf _ = PInf"
| "fsub _ PInf = NInf"
| "fsub NInf _ = NInf"
| "fsub _ NInf = PInf"

fun fabs :: "fval \<Rightarrow> fval" where
  "fabs (Fin a) = Fin \<bar>a\<bar>"
| "fabs PInf = PInf"
| "fabs NInf = PInf"
| "fabs NaN = NaN"

fun fmul :: "fval \<Rightarrow> fval \<Rightarrow> fval" where
  "fmul (Fin a) (Fin b) = Fin (a * b)"
| "fmul NaN _ = NaN"
| "fmul _ NaN = NaN"
| "fmul PInf (Fin b) = (if 0 < b then PInf else if b < 0 then NInf else NaN)"
| "fmul NInf (Fin b) = (if 0 < b then NInf else if b < 0 then PInf else NaN)"
| "fmul (Fin a) PInf = (if 0 < a then PInf else if a < 0 then NInf else NaN)"
| "fmul (Fin a) NInf = (if 0 < a then NInf else if a < 0 then PInf else NaN)"
| "fmul PInf PInf = PInf"
| "fmul NInf NInf = PInf"
| "fmul PInf NInf = NInf"
| "fmul NInf PInf = NInf"

fun fsqrt :: "fval \<Rightarrow> fval" where
  "fsqrt (Fin a) = (if a < 0 then NaN else Fin (sqrt a))"
| "fsqrt PInf = PInf"
| "fsqrt NInf = NaN"
| "fsqrt NaN = NaN"

fun fln :: "fval \<Rightarrow> fval" where
  "fln (Fin a) = (if a < 0 then NaN else if a = 0 then NInf else Fin (ln a))"
| "fln PInf = PInf"
| "fln NInf = NaN"
| "fln NaN = NaN"

fun fexp :: "fval \<Rightarrow> fval" where
  "fexp (Fin a) = Fin (exp a)"
| "fexp PInf = PInf"
| "fexp NInf = Fin 0"
| "fexp NaN = NaN"

text \<open>The comparison \<open>a > b\<close> of two values; every comparison with a NaN is false.\<close>

fun fgt :: "fval \<Rightarrow> fval \<Rightarrow> bool" where
  "fgt (Fin a) (Fin b) = (b < a)"
| "fgt NaN _ = False"
| "fgt _ NaN = False"
| "fgt PInf PInf = False"
| "fgt PInf _ = True"
| "fgt NInf _ = False"
| "fgt _ NInf = True"
| "fgt _ PInf = False"

text \<open>
  The bulk operations \<^verbatim>\<open>Sub\<close>, \<^verbatim>\<open>Abs\<close>, \<^verbatim>\<open>Mul\<close>, \<^verbatim>\<open>Adds\<close>, \<^verbatim>\<open>Ln\<close>, \<^verbatim>\<open>Muls\<close>,
  \<^verbatim>\<open>Exp\<close>, \<^verbatim>\<open>ReduceSum\<close>, \<^verbatim>\<open>Sqrt\<close> and \<^verbatim>\<open>DataCopy\<close> belong to the vendor's
  library (\<^verbatim>\<open>kernel_operator.h\<close>), not to the repository. Each has its documented
  meaning, which is also the spec's: element-wise subtract, absolute value, multiply,
  log, exp and square root, and a horizontal sum, "with identical mathematical
  semantics" to a dense-array loop. Each takes the number of elements it works on
  (\<open>cnt\<close>) as the source passes it and yields the \<open>cnt\<close> elements it writes to its
  destination tensor.
\<close>

definition Sub :: "fval list \<Rightarrow> fval list \<Rightarrow> nat \<Rightarrow> fval list" where
  "Sub src0 src1 cnt = map2 fsub (take cnt src0) (take cnt src1)"

definition Abs :: "fval list \<Rightarrow> nat \<Rightarrow> fval list" where
  "Abs src cnt = map fabs (take cnt src)"

definition Mul :: "fval list \<Rightarrow> fval list \<Rightarrow> nat \<Rightarrow> fval list" where
  "Mul src0 src1 cnt = map2 fmul (take cnt src0) (take cnt src1)"

definition Adds :: "fval list \<Rightarrow> fval \<Rightarrow> nat \<Rightarrow> fval list" where
  "Adds src scalar cnt = map (\<lambda>v. fadd v scalar) (take cnt src)"

definition Ln :: "fval list \<Rightarrow> nat \<Rightarrow> fval list" where
  "Ln src cnt = map fln (take cnt src)"

definition Muls :: "fval list \<Rightarrow> fval \<Rightarrow> nat \<Rightarrow> fval list" where
  "Muls src scalar cnt = map (\<lambda>v. fmul v scalar) (take cnt src)"

definition Exp :: "fval list \<Rightarrow> nat \<Rightarrow> fval list" where
  "Exp src cnt = map fexp (take cnt src)"

definition Sqrt :: "fval list \<Rightarrow> nat \<Rightarrow> fval list" where
  "Sqrt src cnt = map fsqrt (take cnt src)"

text \<open>\<^verbatim>\<open>ReduceSum(dst, src, work, cnt)\<close> leaves the sum of the first \<open>cnt\<close> elements of
  \<open>src\<close> in element 0 of \<open>dst\<close>; the model yields that one-element tensor.\<close>

definition ReduceSum :: "fval list \<Rightarrow> nat \<Rightarrow> fval list" where
  "ReduceSum src cnt = [foldr fadd (take cnt src) (Fin 0)]"

text \<open>\<^verbatim>\<open>DataCopy(ub, xGm[off], cnt)\<close> copies the \<open>cnt\<close> consecutive elements of global
  memory that start at element \<open>off\<close>. Global memory is a total function of the element
  index: what lies behind the end of a tensor is whatever the device holds there.\<close>

definition DataCopy_idx :: "nat \<Rightarrow> nat \<Rightarrow> nat list" where
  "DataCopy_idx off cnt = [off ..< off + cnt]"

definition DataCopy :: "(nat \<Rightarrow> fval) \<Rightarrow> nat \<Rightarrow> nat \<Rightarrow> fval list" where
  "DataCopy gm off cnt = map gm (DataCopy_idx off cnt)"


section \<open>The tiling descriptor\<close>

text \<open>
  \<^verbatim>\<open>PdistTilingData\<close> (host, \<^verbatim>\<open>pdist_tiling.h\<close>) and \<^verbatim>\<open>KernelTilingData\<close> (kernel) are
  the same six fields in the same order; one record stands for both.
\<close>

record PdistTilingData =
  td_n :: u32
  td_m :: u32
  td_p :: fval
  td_tileLength :: u32
  td_usedCoreNum :: u32
  td_tilingKey :: u32


section \<open>The host side: TilingFunc\<close>

datatype DataType = DT_FLOAT | DT_FLOAT16

text \<open>
  What \<^verbatim>\<open>TilingFunc\<close> reads from its context: the attribute pointer (\<open>None\<close> is
  \<^verbatim>\<open>nullptr\<close>), the two dimensions of the storage shape (\<^verbatim>\<open>int64_t\<close>), the input's
  data type, and the platform information (\<open>None\<close> is \<^verbatim>\<open>nullptr\<close>, \<open>Some c\<close> a platform
  whose \<^verbatim>\<open>GetCoreNumAic()\<close> is \<open>c\<close>).
\<close>

record TilingContext =
  attr_p :: "fval option"
  shape_dim0 :: u64
  shape_dim1 :: u64
  input_dtype :: DataType
  platformInfo :: "u32 option"

text \<open>What it leaves in the context on success: the block dimension and the descriptor.\<close>

record TilingResult =
  blockDim :: u32
  tiling :: PdistTilingData

definition typeSize_of :: "DataType \<Rightarrow> u32" where
  "typeSize_of dtype = (if dtype = DT_FLOAT then 4 else 2)"

text \<open>Lines 47-49: all three are \<^verbatim>\<open>uint32_t\<close> computations.\<close>

definition tileLength_of :: "u32 \<Rightarrow> u32 \<Rightarrow> u32" where
  "tileLength_of mm typeSize =
     (let align = 32;
          rowSize = mm * typeSize;
          alignedRowSize = (rowSize + align - 1) div align * align
      in alignedRowSize div typeSize)"

text \<open>\<open>None\<close> is the return of \<^verbatim>\<open>GRAPH_FAILED\<close>, \<open>Some\<close> that of \<^verbatim>\<open>GRAPH_SUCCESS\<close>.\<close>

definition TilingFunc :: "TilingContext \<Rightarrow> TilingResult option" where
  "TilingFunc ctx =
     (let pp = (case attr_p ctx of Some v \<Rightarrow> v | None \<Rightarrow> Fin 2);
          nn = (ucast (shape_dim0 ctx) :: u32);
          mm = (ucast (shape_dim1 ctx) :: u32)
      in case platformInfo ctx of
           None \<Rightarrow> None
         | Some aicoreNum \<Rightarrow>
             let typeSize = typeSize_of (input_dtype ctx);
                 tileLength = tileLength_of mm typeSize;
                 usedCoreNum = (if nn < aicoreNum then 1 else aicoreNum)
             in Some \<lparr>blockDim = usedCoreNum,
                      tiling = \<lparr>td_n = nn, td_m = mm, td_p = pp, td_tileLength = tileLength,
                                td_usedCoreNum = usedCoreNum, td_tilingKey = 1\<rparr>\<rparr>)"


section \<open>The kernel: KernelPdist\<close>

text \<open>
  The members of the class. \<open>k_xGm\<close> and \<open>k_yRaw\<close> are the input and output memory seen
  through the kernel's \<^verbatim>\<open>float*\<close> pointers, indexed by element. \<open>k_calls\<close> is not a
  member: it records, in order, the arguments \<open>(i, j)\<close> of every call of
  \<^verbatim>\<open>ComputeAndSave\<close>, so that the pairs a unit produces can be spoken about.
\<close>

record KernelPdist =
  k_xGm :: "nat \<Rightarrow> fval"
  k_yRaw :: "nat \<Rightarrow> fval"
  k_n :: u32
  k_m :: u32
  k_p :: fval
  k_tileLength :: u32
  k_totalCoreNum :: u32
  k_coreId :: u32
  k_calls :: "(u32 \<times> u32) list"

text \<open>\<open>blockIdx\<close> is the value of \<^verbatim>\<open>GetBlockIdx()\<close>.\<close>

definition Init :: "(nat \<Rightarrow> fval) \<Rightarrow> (nat \<Rightarrow> fval) \<Rightarrow> PdistTilingData \<Rightarrow> u32 \<Rightarrow> KernelPdist" where
  "Init x y tData blockIdx =
     \<lparr>k_xGm = x, k_yRaw = y, k_n = td_n tData, k_m = td_m tData, k_p = td_p tData,
      k_tileLength = td_tileLength tData, k_totalCoreNum = td_usedCoreNum tData,
      k_coreId = blockIdx, k_calls = []\<rparr>"

text \<open>\<^verbatim>\<open>CopyRow\<close>: the offset \<^verbatim>\<open>rowIdx * m\<close> is a \<^verbatim>\<open>uint32_t\<close> product.\<close>

definition CopyRow_idx :: "KernelPdist \<Rightarrow> u32 \<Rightarrow> nat list" where
  "CopyRow_idx k rowIdx = DataCopy_idx (unat (rowIdx * k_m k)) (unat (k_tileLength k))"

definition CopyRow :: "KernelPdist \<Rightarrow> u32 \<Rightarrow> fval list" where
  "CopyRow k rowIdx = DataCopy (k_xGm k) (unat (rowIdx * k_m k)) (unat (k_tileLength k))"

definition eps_guard :: fval where
  "eps_guard = Fin (1 / 10 ^ 20)"

text \<open>Lines 78-106 and 111 of \<^verbatim>\<open>ComputeAndSave\<close>: from the two staged rows to the scalar
  \<^verbatim>\<open>result\<close>.\<close>

definition vector_core :: "fval \<Rightarrow> nat \<Rightarrow> fval list \<Rightarrow> fval list \<Rightarrow> fval" where
  "vector_core pp cnt rowI rowJ0 =
     (let rowJ = Sub rowI rowJ0 cnt;
          rowJ = Abs rowJ cnt;
          outLocal =
            (if pp = Fin 1 then ReduceSum rowJ cnt
             else if pp = Fin 2 then
               (let rowJ = Mul rowJ rowJ cnt;
                    outLocal = ReduceSum rowJ cnt
                in Sqrt outLocal 1)
             else
               (let rowJ = Adds rowJ eps_guard cnt;
                    rowJ = Ln rowJ cnt;
                    rowJ = Muls rowJ pp cnt;
                    rowJ = Exp rowJ cnt
                in ReduceSum rowJ cnt))
      in outLocal ! 0)"

text \<open>Line 114: \<^verbatim>\<open>2 * n - 1 - i\<close> is computed in \<^verbatim>\<open>uint32_t\<close> and then widened; the
  product, the division and the sum are \<^verbatim>\<open>uint64_t\<close>.\<close>

definition outIdx_of :: "u32 \<Rightarrow> u32 \<Rightarrow> u32 \<Rightarrow> u64" where
  "outIdx_of nn i j = (ucast (2 * nn - 1 - i) :: u64) * ucast i div 2 + ucast (j - i - 1)"

definition ComputeAndSave :: "KernelPdist \<Rightarrow> fval list \<Rightarrow> u32 \<Rightarrow> u32 \<Rightarrow> KernelPdist" where
  "ComputeAndSave k rowI i j =
     (let rowJ = CopyRow k j;
          result = vector_core (k_p k) (unat (k_tileLength k)) rowI rowJ;
          outIdx = outIdx_of (k_n k) i j
      in k\<lparr>k_yRaw := (k_yRaw k)(unat outIdx := result), k_calls := k_calls k @ [(i, j)]\<rparr>)"

lemma unat_inc_less: "(j::'a::len word) < b \<Longrightarrow> unat (j + 1) = Suc (unat j)"
proof -
  assume "j < b"
  then have "unat j < unat b" by (simp add: word_less_nat_alt)
  moreover have "unat b < 2 ^ LENGTH('a)" by simp
  ultimately have "unat j + 1 < 2 ^ LENGTH('a)" by arith
  then show ?thesis by (simp add: unat_word_ariths)
qed

lemma ComputeAndSave_k_n [simp]: "k_n (ComputeAndSave k rowI i j) = k_n k"
  by (simp add: ComputeAndSave_def Let_def)

text \<open>The inner loop of \<^verbatim>\<open>Process\<close>: \<^verbatim>\<open>for (j = i + 1; j < n; ++j)\<close>, entered at \<open>j\<close>.\<close>

function Process_inner :: "KernelPdist \<Rightarrow> fval list \<Rightarrow> u32 \<Rightarrow> u32 \<Rightarrow> KernelPdist" where
  "Process_inner k rowI i j =
     (if j < k_n k then Process_inner (ComputeAndSave k rowI i j) rowI i (j + 1) else k)"
  by pat_completeness auto
termination
proof (relation "measure (\<lambda>(k, rowI, i, j). unat (k_n k) - unat j)")
  show "wf (measure (\<lambda>(k, rowI, i, j). unat (k_n k) - unat j))"
    by simp
next
  fix k :: KernelPdist and rowI :: "fval list" and i j :: u32
  assume lt: "j < k_n k"
  then have "unat (j + 1) = Suc (unat j)"
    by (rule unat_inc_less)
  moreover from lt have "unat j < unat (k_n k)"
    by (simp add: word_less_nat_alt)
  ultimately show "((ComputeAndSave k rowI i j, rowI, i, j + 1), (k, rowI, i, j))
      \<in> measure (\<lambda>(k, rowI, i, j). unat (k_n k) - unat j)"
    by simp
qed

declare Process_inner.simps [simp del]

text \<open>
  The outer loop: \<^verbatim>\<open>for (i = coreId; i < n; i += totalCoreNum)\<close>, entered at \<open>i\<close>. The
  addition wraps around, so the loop need not end: it runs on fuel, and \<open>None\<close> is a
  loop that has not ended when the fuel is used up.
\<close>

fun Process_outer :: "nat \<Rightarrow> KernelPdist \<Rightarrow> u32 \<Rightarrow> KernelPdist option" where
  "Process_outer 0 k i = None"
| "Process_outer (Suc fuel) k i =
     (if i < k_n k then
        (let rowI = CopyRow k i;
             k = Process_inner k rowI i (i + 1)
         in Process_outer fuel k (i + k_totalCoreNum k))
      else Some k)"

definition Process :: "nat \<Rightarrow> KernelPdist \<Rightarrow> KernelPdist option" where
  "Process fuel k =
     (if k_coreId k \<ge> k_totalCoreNum k then Some k else Process_outer fuel k (k_coreId k))"

text \<open>The entry point: the descriptor is copied field by field, then \<^verbatim>\<open>Init\<close> and
  \<^verbatim>\<open>Process\<close>.\<close>

definition pdist :: "nat \<Rightarrow> (nat \<Rightarrow> fval) \<Rightarrow> (nat \<Rightarrow> fval) \<Rightarrow> PdistTilingData \<Rightarrow> u32 \<Rightarrow> KernelPdist option" where
  "pdist fuel x y tData blockIdx = Process fuel (Init x y tData blockIdx)"


section \<open>The reference of the test harness: cpu_pdist\<close>

text \<open>
  \<^verbatim>\<open>cpu_pdist<float>\<close> of \<^verbatim>\<open>TestPdist/main.cpp\<close>. Its \<^verbatim>\<open>std::pow\<close> is a parameter; the
  quotient \<^verbatim>\<open>1.0 / p\<close> is \<open>fdiv\<close> (zeros carry no sign here). The loop over \<open>k\<close> reads
  \<^verbatim>\<open>x[i * m + k]\<close> and \<^verbatim>\<open>x[j * m + k]\<close> for \<open>k = 0, ..., m - 1\<close>: \<open>cpu_row\<close> is that
  row, and the two folds walk the two rows side by side.
\<close>

fun fdiv :: "fval \<Rightarrow> fval \<Rightarrow> fval" where
  "fdiv (Fin a) (Fin b) =
     (if b \<noteq> 0 then Fin (a / b) else if 0 < a then PInf else if a < 0 then NInf else NaN)"
| "fdiv NaN _ = NaN"
| "fdiv _ NaN = NaN"
| "fdiv (Fin a) _ = Fin 0"
| "fdiv PInf (Fin b) = (if 0 \<le> b then PInf else NInf)"
| "fdiv NInf (Fin b) = (if 0 \<le> b then NInf else PInf)"
| "fdiv _ _ = NaN"

definition isinf :: "fval \<Rightarrow> bool" where
  "isinf v = (v = PInf \<or> v = NInf)"

definition cpu_row :: "(nat \<Rightarrow> fval) \<Rightarrow> int \<Rightarrow> int \<Rightarrow> fval list" where
  "cpu_row x mm i = map (\<lambda>k. x (nat (i * mm + k))) [0 .. mm - 1]"

definition cpu_max_diff :: "fval list \<Rightarrow> fval list \<Rightarrow> fval" where
  "cpu_max_diff rowI rowJ =
     foldl (\<lambda>max_diff (a, b). let diff = fabs (fsub a b)
                              in if fgt diff max_diff then diff else max_diff)
       (Fin 0) (zip rowI rowJ)"

definition cpu_pow_sum :: "(fval \<Rightarrow> fval \<Rightarrow> fval) \<Rightarrow> fval \<Rightarrow> fval list \<Rightarrow> fval list \<Rightarrow> fval" where
  "cpu_pow_sum pow pp rowI rowJ =
     foldl (\<lambda>sum (a, b). let diff = fabs (fsub a b) in fadd sum (pow diff pp))
       (Fin 0) (zip rowI rowJ)"

definition cpu_pair :: "(fval \<Rightarrow> fval \<Rightarrow> fval) \<Rightarrow> (nat \<Rightarrow> fval) \<Rightarrow> int \<Rightarrow> fval \<Rightarrow> int \<Rightarrow> int \<Rightarrow> fval" where
  "cpu_pair pow x mm pp i j =
     (if isinf pp then cpu_max_diff (cpu_row x mm i) (cpu_row x mm j)
      else pow (cpu_pow_sum pow pp (cpu_row x mm i) (cpu_row x mm j)) (fdiv (Fin 1) pp))"

text \<open>The output array \<open>y\<close> in the order \<^verbatim>\<open>out_idx++\<close> fills it.\<close>

definition cpu_pdist :: "(fval \<Rightarrow> fval \<Rightarrow> fval) \<Rightarrow> (nat \<Rightarrow> fval) \<Rightarrow> int \<Rightarrow> int \<Rightarrow> fval \<Rightarrow> fval list" where
  "cpu_pdist pow x nn mm pp =
     concat (map (\<lambda>i. map (\<lambda>j. cpu_pair pow x mm pp i j) [i + 1 .. nn - 1]) [0 .. nn - 1])"


section \<open>The condensed layout in the spec's words\<close>

text \<open>
  The spec's formula \<open>offset(i, j) = (2n - 1 - i) * i / 2 + (j - i - 1)\<close> over the natural
  numbers, to be compared with \<open>outIdx_of\<close>, and its first term on its own: the number
  of pairs whose first row is smaller than \<open>I\<close>.
\<close>

definition row_start :: "nat \<Rightarrow> nat \<Rightarrow> nat" where
  "row_start N I = (2 * N - 1 - I) * I div 2"

definition spec_offset :: "nat \<Rightarrow> nat \<Rightarrow> nat \<Rightarrow> nat" where
  "spec_offset N I J = (2 * N - 1 - I) * I div 2 + (J - I - 1)"


section \<open>The rows and pairs of a unit\<close>

text \<open>
  Two notions for the statements about \<^verbatim>\<open>Process\<close>: the calls of one pass of the inner
  loop for row \<open>i\<close>, and the pairs whose first row is reached from \<open>i\<close> in steps of \<open>c\<close>.
\<close>

definition row_calls :: "u32 \<Rightarrow> u32 \<Rightarrow> (u32 \<times> u32) list" where
  "row_calls nn i = map (\<lambda>t. (i, of_nat t)) [unat (i + 1) ..< unat nn]"

definition owned_from :: "u32 \<Rightarrow> u32 \<Rightarrow> u32 \<Rightarrow> (u32 \<times> u32) set" where
  "owned_from nn c i = {(a, b). a < b \<and> b < nn \<and> i \<le> a \<and> unat c dvd (unat a - unat i)}"


text \<open>
  One call of \<^verbatim>\<open>ComputeAndSave\<close> as \<^verbatim>\<open>Process\<close> makes it: on the row that \<^verbatim>\<open>CopyRow\<close>
  staged for the first index of the pair. And one summand of the generic path at
  \<open>p = +\<infinity>\<close>: the chain \<^verbatim>\<open>Sub\<close>, \<^verbatim>\<open>Abs\<close>, \<^verbatim>\<open>Adds\<close>, \<^verbatim>\<open>Ln\<close>, \<^verbatim>\<open>Muls\<close>, \<^verbatim>\<open>Exp\<close> on one pair
  of staged elements.
\<close>

definition call_step :: "KernelPdist \<Rightarrow> u32 \<times> u32 \<Rightarrow> KernelPdist" where
  "call_step k c = ComputeAndSave k (CopyRow k (fst c)) (fst c) (snd c)"



section \<open>Tensors in memory\<close>


text \<open>
  The unrooted sum of the generic branch in the spec's words, over the elements of two
  rows: the sum of \<open>(|d| + 1e-20)^p\<close>. To be compared with what the kernel writes.
\<close>

definition spec_generic_sum :: "real \<Rightarrow> real list \<Rightarrow> real list \<Rightarrow> real" where
  "spec_generic_sum q a b = (\<Sum>(u, v) \<leftarrow> zip a b. (\<bar>u - v\<bar> + 1 / 10 ^ 20) powr q)"


text \<open>An input tensor of finite values laid out from element 0 of global memory, and
  behind it whatever the device holds there (\<open>beyond\<close>).\<close>

definition tensor_mem :: "real list \<Rightarrow> (nat \<Rightarrow> fval) \<Rightarrow> nat \<Rightarrow> fval" where
  "tensor_mem xs beyond t = (if t < length xs then Fin (xs ! t) else beyond t)"

text \<open>
  Byte addresses. The kernel reads and writes through \<^verbatim>\<open>float*\<close> (\<^verbatim>\<open>Init\<close>, lines 37
  and 39) and sizes its buffers with \<^verbatim>\<open>sizeof(float)\<close>, whatever the data type of the
  tensors: \<open>CopyRow_bytes\<close> is the byte range \<open>[first, last)\<close> of the input buffer
  that \<^verbatim>\<open>CopyRow\<close> reads, \<open>yRaw_store_bytes\<close> the byte range of the output buffer
  that \<^verbatim>\<open>yRaw[outIdx] = result\<close> writes. \<open>elementSize\<close> is the test harness's
  (\<^verbatim>\<open>main.cpp\<close>, line 136), which allocates \<open>n * m * elementSize\<close> bytes for the input.
\<close>

definition sizeof_float :: nat where
  "sizeof_float = 4"

definition CopyRow_bytes :: "KernelPdist \<Rightarrow> u32 \<Rightarrow> nat \<times> nat" where
  "CopyRow_bytes k rowIdx =
     (sizeof_float * unat (rowIdx * k_m k),
      sizeof_float * (unat (rowIdx * k_m k) + unat (k_tileLength k)))"

definition yRaw_store_bytes :: "u64 \<Rightarrow> nat \<times> nat" where
  "yRaw_store_bytes outIdx = (sizeof_float * unat outIdx, sizeof_float * (unat outIdx + 1))"

definition elementSize :: "DataType \<Rightarrow> nat" where
  "elementSize dtype = (if dtype = DT_FLOAT then 4 else 2)"

text \<open>The input tensor is dense and row-major (the harness fills and reads it so, and
  the spec says so): row \<open>r\<close> of a tensor with rows of \<open>mm\<close> elements is the byte
  range \<open>[r * mm * elementSize, (r + 1) * mm * elementSize)\<close>.\<close>

definition tensor_row_bytes :: "DataType \<Rightarrow> nat \<Rightarrow> nat \<Rightarrow> nat \<times> nat" where
  "tensor_row_bytes dtype mm r = (r * mm * elementSize dtype, (r + 1) * mm * elementSize dtype)"


section \<open>The planner\<close>

lemma tileLength_of_unat:
  assumes w: "unat w = 4 \<or> unat w = 2" and fit: "unat mm * unat w + 31 < 2 ^ 32"
  shows "unat (tileLength_of mm w) = (unat mm * unat w + 31) div 32 * 32 div unat w"
proof -
  have rs: "unat (mm * w) = unat mm * unat w"
    using fit by (simp add: unat_mult_lem [THEN iffD1])
  have "unat (mm * w) + unat (31 :: u32) < 2 ^ LENGTH(32)"
    using fit rs by simp
  then have r31: "unat (mm * w + 31) = unat mm * unat w + 31"
    using rs by (simp add: unat_add_lem [THEN iffD1])
  have dv: "unat ((mm * w + 31) div 32) = (unat mm * unat w + 31) div 32"
    using r31 by (simp add: unat_div)
  have "unat ((mm * w + 31) div 32) * unat (32 :: u32) < 2 ^ LENGTH(32)"
    using dv fit by simp
  then have ml: "unat ((mm * w + 31) div 32 * 32) = (unat mm * unat w + 31) div 32 * 32"
    using dv by (simp add: unat_mult_lem [THEN iffD1])
  have unf: "tileLength_of mm w = (mm * w + 31) div 32 * 32 div w"
    by (simp add: tileLength_of_def Let_def add.commute)
  show ?thesis
    by (simp only: unf unat_div ml)
qed

lemma ceil32: "nat \<lceil>real a / 32\<rceil> = (a + 31) div 32"
  by linarith

text \<open>
  Claim C6, as amended. For a row of at least one element whose byte size leaves room
  for the rounding (\<open>m * elementBytes + 31 < 2^32\<close>, all of it \<^verbatim>\<open>uint32_t\<close> arithmetic),
  the planner succeeds whenever the platform is there, and its descriptor has
  \<open>tileLength = ceil(m * elementBytes / 32) * 32 / elementBytes\<close>, \<open>tileLength \<ge> m\<close>, and
  \<open>tileLength\<close> a multiple of \<open>32 / elementBytes\<close> (8 for 4 bytes, 16 for 2 bytes).
\<close>

theorem TilingFunc_tileLength:
  assumes pl: "platformInfo ctx = Some aicoreNum"
    and m1: "1 \<le> unat (ucast (shape_dim1 ctx) :: u32)"
    and fit: "unat (ucast (shape_dim1 ctx) :: u32) * unat (typeSize_of (input_dtype ctx)) + 31 < 2 ^ 32"
  shows "\<exists>r. TilingFunc ctx = Some r \<and> td_m (tiling r) = ucast (shape_dim1 ctx) \<and>
           unat (td_tileLength (tiling r)) =
             nat \<lceil>real (unat (td_m (tiling r)) * unat (typeSize_of (input_dtype ctx))) / 32\<rceil> * 32
               div unat (typeSize_of (input_dtype ctx)) \<and>
           td_m (tiling r) \<le> td_tileLength (tiling r) \<and>
           (32 div unat (typeSize_of (input_dtype ctx))) dvd unat (td_tileLength (tiling r))"
proof -
  define mm where "mm = (ucast (shape_dim1 ctx) :: u32)"
  define w where "w = typeSize_of (input_dtype ctx)"
  have w: "unat w = 4 \<or> unat w = 2"
    by (simp add: w_def typeSize_of_def)
  have tl: "unat (tileLength_of mm w) = (unat mm * unat w + 31) div 32 * 32 div unat w"
    using w fit unfolding mm_def w_def by (rule tileLength_of_unat)
  have ge: "unat mm \<le> unat (tileLength_of mm w)"
    using w unfolding tl by auto
  have dv: "(32 div unat w) dvd unat (tileLength_of mm w)"
    using w unfolding tl by auto
  have cl: "nat \<lceil>real (unat mm * unat w) / 32\<rceil> = (unat mm * unat w + 31) div 32"
    by (rule ceil32)
  have tf: "TilingFunc ctx = Some \<lparr>blockDim = (if ucast (shape_dim0 ctx) < aicoreNum then 1 else aicoreNum),
      tiling = \<lparr>td_n = ucast (shape_dim0 ctx), td_m = mm,
                td_p = (case attr_p ctx of Some v \<Rightarrow> v | None \<Rightarrow> Fin 2),
                td_tileLength = tileLength_of mm w,
                td_usedCoreNum = (if ucast (shape_dim0 ctx) < aicoreNum then 1 else aicoreNum),
                td_tilingKey = 1\<rparr>\<rparr>"
    using pl by (simp add: TilingFunc_def Let_def mm_def w_def)
  show ?thesis
    unfolding tf mm_def [symmetric] w_def [symmetric]
    using ge dv by (simp add: cl tl word_le_nat_alt del: of_nat_mult)
qed

text \<open>The three shapes the spec names: \<open>m = 5\<close> with 4 bytes gives 8, \<open>m = 5\<close> with 2
  bytes gives 16, \<open>m = 8\<close> with 4 bytes gives 8.\<close>

theorem TilingFunc_tileLength_witness:
  "(\<exists>r. TilingFunc \<lparr>attr_p = None, shape_dim0 = 4, shape_dim1 = 5, input_dtype = DT_FLOAT,
                       platformInfo = Some 8\<rparr> = Some r \<and>
        td_m (tiling r) = 5 \<and> unat (td_tileLength (tiling r)) = 8 \<and>
        td_m (tiling r) \<le> td_tileLength (tiling r) \<and> 8 dvd unat (td_tileLength (tiling r))) \<and>
   (\<exists>r. TilingFunc \<lparr>attr_p = None, shape_dim0 = 4, shape_dim1 = 5, input_dtype = DT_FLOAT16,
                       platformInfo = Some 8\<rparr> = Some r \<and>
        td_m (tiling r) = 5 \<and> unat (td_tileLength (tiling r)) = 16 \<and>
        td_m (tiling r) \<le> td_tileLength (tiling r) \<and> 16 dvd unat (td_tileLength (tiling r))) \<and>
   (\<exists>r. TilingFunc \<lparr>attr_p = None, shape_dim0 = 4, shape_dim1 = 8, input_dtype = DT_FLOAT,
                       platformInfo = Some 8\<rparr> = Some r \<and>
        td_m (tiling r) = 8 \<and> unat (td_tileLength (tiling r)) = 8 \<and>
        td_m (tiling r) \<le> td_tileLength (tiling r) \<and> 8 dvd unat (td_tileLength (tiling r)))"
  using TilingFunc_tileLength [of "\<lparr>attr_p = None, shape_dim0 = 4, shape_dim1 = 5,
            input_dtype = DT_FLOAT, platformInfo = Some 8\<rparr>" 8]
        TilingFunc_tileLength [of "\<lparr>attr_p = None, shape_dim0 = 4, shape_dim1 = 5,
            input_dtype = DT_FLOAT16, platformInfo = Some 8\<rparr>" 8]
        TilingFunc_tileLength [of "\<lparr>attr_p = None, shape_dim0 = 4, shape_dim1 = 8,
            input_dtype = DT_FLOAT, platformInfo = Some 8\<rparr>" 8]
  by (auto simp: typeSize_of_def)

text \<open>Claim C6 as stated ("for every \<open>m \<ge> 1\<close>") fails where the byte size wraps
  around: a row of \<open>2^30\<close> four-byte elements gets \<open>tileLength = 0\<close>.\<close>

theorem TilingFunc_tileLength_wraps:
  "\<exists>r. TilingFunc \<lparr>attr_p = None, shape_dim0 = 2, shape_dim1 = 1073741824,
                    input_dtype = DT_FLOAT, platformInfo = Some 8\<rparr> = Some r \<and>
       td_m (tiling r) = 1073741824 \<and> td_tileLength (tiling r) = 0 \<and>
       \<not> td_m (tiling r) \<le> td_tileLength (tiling r)"
  by (simp add: TilingFunc_def tileLength_of_def typeSize_of_def Let_def)

text \<open>
  Claim C7. Whenever the platform is there, the planner succeeds and
  \<open>usedCoreNum\<close> is the platform's core count, except that it is 1 when \<open>n\<close> is
  smaller than the core count; \<open>m\<close>, \<open>p\<close> and the data type play no part. The block
  dimension is the same number.
\<close>

theorem TilingFunc_usedCoreNum:
  assumes "platformInfo ctx = Some aicoreNum"
  shows "\<exists>r. TilingFunc ctx = Some r \<and> td_n (tiling r) = ucast (shape_dim0 ctx) \<and>
           td_usedCoreNum (tiling r) = (if td_n (tiling r) < aicoreNum then 1 else aicoreNum) \<and>
           blockDim r = td_usedCoreNum (tiling r)"
  using assms by (simp add: TilingFunc_def Let_def)

theorem TilingFunc_usedCoreNum_witness:
  "(\<exists>r. TilingFunc \<lparr>attr_p = Some (Fin 3), shape_dim0 = 7, shape_dim1 = 5, input_dtype = DT_FLOAT16,
                       platformInfo = Some 8\<rparr> = Some r \<and>
        td_n (tiling r) = 7 \<and> td_usedCoreNum (tiling r) = 1 \<and> blockDim r = 1) \<and>
   (\<exists>r. TilingFunc \<lparr>attr_p = None, shape_dim0 = 8, shape_dim1 = 5, input_dtype = DT_FLOAT,
                       platformInfo = Some 8\<rparr> = Some r \<and>
        td_n (tiling r) = 8 \<and> td_usedCoreNum (tiling r) = 8 \<and> blockDim r = 8)"
  using TilingFunc_usedCoreNum [of "\<lparr>attr_p = Some (Fin 3), shape_dim0 = 7, shape_dim1 = 5,
            input_dtype = DT_FLOAT16, platformInfo = Some 8\<rparr>" 8]
        TilingFunc_usedCoreNum [of "\<lparr>attr_p = None, shape_dim0 = 8, shape_dim1 = 5,
            input_dtype = DT_FLOAT, platformInfo = Some 8\<rparr>" 8]
  by auto

section \<open>The output index\<close>

lemma spec_offset_alt: "spec_offset N I J = row_start N I + (J - I - 1)"
  by (simp add: spec_offset_def row_start_def)

lemma row_start_Suc:
  assumes "I < N"
  shows "row_start N (Suc I) = row_start N I + (N - 1 - I)"
proof -
  obtain d where N: "N = I + 1 + d"
    using assms by (metis Suc_eq_plus1 less_iff_Suc_add add_Suc_right add_Suc)
  have "(2 * N - 1 - Suc I) * Suc I = (2 * N - 1 - I) * I + 2 * (N - 1 - I)"
    unfolding N by (simp add: algebra_simps)
  then show ?thesis
    by (simp add: row_start_def)
qed

lemma row_start_mono:
  assumes "I \<le> I'" and "I' \<le> N"
  shows "row_start N I \<le> row_start N I'"
  using assms
proof (induction I' rule: nat_induct_at_least)
  case base
  show ?case by simp
next
  case (Suc t)
  then show ?case
    by (simp add: row_start_Suc)
qed

lemma spec_offset_range:
  assumes "I < J" and "J < N"
  shows "row_start N I \<le> spec_offset N I J" and "spec_offset N I J < row_start N (Suc I)"
  using assms by (simp_all add: row_start_Suc spec_offset_alt)

lemma row_start_last: "row_start N (N - 1) = N * (N - 1) div 2"
  by (cases N) (simp_all add: row_start_def mult.commute)

lemma spec_offset_inj:
  assumes a: "I < J" "J < N" and b: "I' < J'" "J' < N" and eq: "spec_offset N I J = spec_offset N I' J'"
  shows "I = I' \<and> J = J'"
proof -
  have ne: False if lt: "A < A'" and r: "A < B" "B < N" "A' < B'" "B' < N"
      and e: "spec_offset N A B = spec_offset N A' B'" for A B A' B'
  proof -
    have "spec_offset N A B < row_start N (Suc A)"
      using r by (simp add: spec_offset_range)
    also have "row_start N (Suc A) \<le> row_start N A'"
      using lt r by (intro row_start_mono) auto
    also have "row_start N A' \<le> spec_offset N A' B'"
      using r by (simp add: spec_offset_range)
    finally show False using e by simp
  qed
  have "I = I'"
    using ne [of I I' J J'] ne [of I' I J' J] a b eq by (metis nat_neq_iff)
  moreover from this have "J = J'"
    using a b eq by (simp add: spec_offset_def)
  ultimately show ?thesis by simp
qed

lemma spec_offset_surj_aux:
  assumes "t \<le> N - 1" and "k < row_start N t"
  shows "\<exists>I J. I < J \<and> J < N \<and> spec_offset N I J = k"
  using assms
proof (induction t)
  case 0
  then show ?case by (simp add: row_start_def)
next
  case (Suc t)
  show ?case
  proof (cases "k < row_start N t")
    case True
    with Suc show ?thesis by simp
  next
    case False
    from Suc.prems have tN: "t < N - 1" by simp
    then have st: "row_start N (Suc t) = row_start N t + (N - 1 - t)"
      by (simp add: row_start_Suc)
    let ?J = "t + 1 + (k - row_start N t)"
    have "t < ?J" by simp
    moreover have "?J < N" using False Suc.prems st by simp
    moreover have "spec_offset N t ?J = k"
      using False by (simp add: spec_offset_alt)
    ultimately show ?thesis by blast
  qed
qed

lemma spec_offset_surj:
  assumes "k < N * (N - 1) div 2"
  shows "\<exists>I J. I < J \<and> J < N \<and> spec_offset N I J = k"
  using spec_offset_surj_aux [of "N - 1" N k] assms row_start_last [of N] by simp

lemma spec_offset_bound:
  assumes "I < J" and "J < N"
  shows "spec_offset N I J < N * (N - 1) div 2"
proof -
  have "spec_offset N I J < row_start N (Suc I)"
    using assms by (simp add: spec_offset_range)
  also have "row_start N (Suc I) \<le> row_start N (N - 1)"
    using assms by (intro row_start_mono) auto
  finally show ?thesis using row_start_last [of N] by simp
qed


lemma unat_ucast_32_64: "unat (ucast (w :: u32) :: u64) = unat w"
proof -
  have "unat w < 2 ^ 32" using unsigned_less [of w] by simp
  then have "unat w < 2 ^ 64" by simp
  then show ?thesis
    by (simp add: unsigned_ucast_eq take_bit_nat_eq_self)
qed

lemma outIdx_of_unat:
  fixes nn i j :: u32
  assumes ij: "i < j" and jn: "j < nn" and small: "unat nn \<le> 2 ^ 31"
  shows "unat (outIdx_of nn i j) = spec_offset (unat nn) (unat i) (unat j)"
proof -
  let ?N = "unat nn" and ?I = "unat i" and ?J = "unat j"
  have IJ: "?I < ?J" and JN: "?J < ?N"
    using ij jn by (simp_all add: word_less_nat_alt)
  have "2 * nn - 1 - i = of_nat (2 * ?N - 1 - ?I)"
    using IJ JN by (simp add: of_nat_diff)
  moreover have "2 * ?N - 1 - ?I < 2 ^ LENGTH(32)"
    using small IJ JN by simp
  ultimately have a: "unat (2 * nn - 1 - i) = 2 * ?N - 1 - ?I"
    by (simp only: unat_of_nat mod_less)
  have b: "unat (j - i - 1) = ?J - ?I - 1"
  proof -
    have "i \<le> j" using ij by simp
    then have "unat (j - i) = ?J - ?I" by (rule unat_sub)
    moreover have "1 \<le> j - i"
      using ij by (simp add: word_le_nat_alt word_less_nat_alt unat_sub)
    ultimately show ?thesis by (simp add: unat_sub)
  qed
  have ua: "unat (ucast (2 * nn - 1 - i) :: u64) = 2 * ?N - 1 - ?I"
    using a by (simp add: unat_ucast_32_64)
  have ui: "unat (ucast i :: u64) = ?I"
    by (simp add: unat_ucast_32_64)
  have ub: "unat (ucast (j - i - 1) :: u64) = ?J - ?I - 1"
    using b by (simp add: unat_ucast_32_64)
  have I32: "?I < 2 ^ 32" and J32: "?J < 2 ^ 32"
    using unsigned_less [of i] unsigned_less [of j] by simp_all
  have "(2 * ?N - 1 - ?I) * ?I < 2 ^ 32 * 2 ^ 32"
    using small I32 by (intro mult_strict_mono) auto
  then have pr: "unat ((ucast (2 * nn - 1 - i) :: u64) * ucast i) = (2 * ?N - 1 - ?I) * ?I"
    using ua ui by (simp add: unat_mult_lem [THEN iffD1])
  have dv: "unat ((ucast (2 * nn - 1 - i) :: u64) * ucast i div 2) = (2 * ?N - 1 - ?I) * ?I div 2"
    using pr by (simp add: unat_div)
  have "(2 * ?N - 1 - ?I) * ?I div 2 + (?J - ?I - 1) < 2 ^ 64"
  proof -
    have "(2 * ?N - 1 - ?I) * ?I div 2 \<le> (2 * ?N - 1 - ?I) * ?I" by simp
    also have "\<dots> \<le> 2 ^ 32 * 2 ^ 31"
      using small IJ JN by (intro mult_mono) auto
    finally show ?thesis using J32 by simp
  qed
  then have "unat ((ucast (2 * nn - 1 - i) :: u64) * ucast i div 2 + ucast (j - i - 1))
      = (2 * ?N - 1 - ?I) * ?I div 2 + (?J - ?I - 1)"
    using dv ub by (simp add: unat_add_lem [THEN iffD1])
  then show ?thesis
    by (simp only: outIdx_of_def spec_offset_def)
qed


text \<open>
  Claim C2, as amended. For \<open>2 \<le> n \<le> 2^31\<close> the index \<^verbatim>\<open>outIdx\<close> of the kernel is a
  bijection from the pairs \<open>i < j < n\<close> onto \<open>[0, n * (n - 1) / 2)\<close>, it is the spec's
  \<open>offset(i, j)\<close>, and it is the element of \<^verbatim>\<open>yRaw\<close> that \<^verbatim>\<open>ComputeAndSave\<close> writes the
  result of the pair to.
\<close>

theorem outIdx_of_bij:
  fixes nn :: u32
  assumes n2: "2 \<le> nn" and small: "unat nn \<le> 2 ^ 31"
  shows "bij_betw (\<lambda>(i, j). unat (outIdx_of nn i j)) {(i, j). i < j \<and> j < nn}
           {0 ..< unat nn * (unat nn - 1) div 2} \<and>
         (\<forall>i j. i < j \<and> j < nn \<longrightarrow>
            unat (outIdx_of nn i j) = spec_offset (unat nn) (unat i) (unat j)) \<and>
         (\<forall>k rowI i j. k_n k = nn \<longrightarrow>
            k_yRaw (ComputeAndSave k rowI i j) =
              (k_yRaw k)(unat (outIdx_of nn i j) :=
                 vector_core (k_p k) (unat (k_tileLength k)) rowI (CopyRow k j)))"
proof (intro conjI allI impI)
  let ?f = "\<lambda>(i, j). unat (outIdx_of nn i j)"
  let ?A = "{(i, j). i < j \<and> j < nn}"
  let ?N = "unat nn"
  have inj: "inj_on ?f ?A"
  proof (rule inj_onI)
    fix x y assume x: "x \<in> ?A" and y: "y \<in> ?A" and e: "?f x = ?f y"
    obtain i j where xx: "x = (i, j)" by (cases x)
    obtain i' j' where yy: "y = (i', j')" by (cases y)
    have a: "i < j" "j < nn" and b: "i' < j'" "j' < nn"
      using x y xx yy by simp_all
    have "spec_offset ?N (unat i) (unat j) = spec_offset ?N (unat i') (unat j')"
      using e a b small by (simp add: xx yy outIdx_of_unat)
    then have "unat i = unat i' \<and> unat j = unat j'"
      using a b by (intro spec_offset_inj [of _ _ ?N]) (simp_all add: word_less_nat_alt)
    then show "x = y"
      by (simp add: xx yy word_unat_eq_iff)
  qed
  have img: "?f ` ?A = {0 ..< ?N * (?N - 1) div 2}"
  proof (rule set_eqI, rule iffI)
    fix t assume "t \<in> ?f ` ?A"
    then obtain i j where ij: "i < j" "j < nn" and t: "t = unat (outIdx_of nn i j)"
      by auto
    have "spec_offset ?N (unat i) (unat j) < ?N * (?N - 1) div 2"
      using ij by (intro spec_offset_bound) (simp_all add: word_less_nat_alt)
    then show "t \<in> {0 ..< ?N * (?N - 1) div 2}"
      using ij small by (simp add: t outIdx_of_unat)
  next
    fix t assume "t \<in> {0 ..< ?N * (?N - 1) div 2}"
    then have "t < ?N * (?N - 1) div 2" by simp
    then obtain I J where IJ: "I < J" "J < ?N" and t: "spec_offset ?N I J = t"
      using spec_offset_surj by blast
    have "unat nn < 2 ^ LENGTH(32)"
      by (rule unsigned_less)
    then have J32: "J < 2 ^ LENGTH(32)" and I32: "I < 2 ^ LENGTH(32)"
      using IJ by simp_all
    have uI: "unat (of_nat I :: u32) = I" and uJ: "unat (of_nat J :: u32) = J"
      using I32 J32 by (simp_all only: unat_of_nat mod_less)
    have lt: "(of_nat I :: u32) < of_nat J" "(of_nat J :: u32) < nn"
      using IJ uI uJ by (simp_all add: word_less_nat_alt)
    then have "unat (outIdx_of nn (of_nat I) (of_nat J)) = t"
      using small t uI uJ by (simp add: outIdx_of_unat)
    then show "t \<in> ?f ` ?A"
      using lt by force
  qed
  show "bij_betw ?f ?A {0 ..< ?N * (?N - 1) div 2}"
    using inj img by (simp add: bij_betw_def)
next
  fix i j assume "i < j \<and> j < nn"
  then show "unat (outIdx_of nn i j) = spec_offset (unat nn) (unat i) (unat j)"
    using small by (simp add: outIdx_of_unat)
next
  fix k :: KernelPdist and rowI :: "fval list" and i j :: u32
  assume "k_n k = nn"
  then show "k_yRaw (ComputeAndSave k rowI i j) =
      (k_yRaw k)(unat (outIdx_of nn i j) :=
         vector_core (k_p k) (unat (k_tileLength k)) rowI (CopyRow k j))"
    by (simp add: ComputeAndSave_def Let_def)
qed

text \<open>At \<open>n = 5\<close>: the bijection onto \<open>[0, 10)\<close> and the ten values of the spec.\<close>

theorem outIdx_of_bij_witness:
  "bij_betw (\<lambda>(i, j). unat (outIdx_of 5 i j)) {(i, j). i < j \<and> j < 5} {0 ..< 10} \<and>
   unat (outIdx_of 5 0 1) = 0 \<and> unat (outIdx_of 5 0 2) = 1 \<and> unat (outIdx_of 5 0 3) = 2 \<and>
   unat (outIdx_of 5 0 4) = 3 \<and> unat (outIdx_of 5 1 2) = 4 \<and> unat (outIdx_of 5 1 3) = 5 \<and>
   unat (outIdx_of 5 1 4) = 6 \<and> unat (outIdx_of 5 2 3) = 7 \<and> unat (outIdx_of 5 2 4) = 8 \<and>
   unat (outIdx_of 5 3 4) = 9"
proof -
  have "(2 :: u32) \<le> 5" and "unat (5 :: u32) \<le> 2 ^ 31"
    by simp_all
  from outIdx_of_bij [OF this]
  have "bij_betw (\<lambda>(i, j). unat (outIdx_of 5 i j)) {(i, j). i < j \<and> j < 5} {0 ..< 10}"
    by simp
  then show ?thesis
    by (simp add: outIdx_of_def)
qed

text \<open>Claim C2 as stated ("for every \<open>n \<ge> 2\<close>") fails from \<open>n = 2^31 + 1\<close> on:
  \<^verbatim>\<open>2 * n - 1 - i\<close> wraps around in \<^verbatim>\<open>uint32_t\<close>, and the pairs \<open>(1, 2)\<close> and \<open>(0, 1)\<close>
  get the same index.\<close>

theorem outIdx_of_wraps:
  "outIdx_of 2147483649 1 2 = 0 \<and> outIdx_of 2147483649 0 1 = 0"
  by (simp add: outIdx_of_def)


section \<open>The work partition\<close>

lemma ComputeAndSave_fields [simp]:
  "k_totalCoreNum (ComputeAndSave k rowI i j) = k_totalCoreNum k"
  "k_m (ComputeAndSave k rowI i j) = k_m k"
  "k_tileLength (ComputeAndSave k rowI i j) = k_tileLength k"
  "k_xGm (ComputeAndSave k rowI i j) = k_xGm k"
  "k_p (ComputeAndSave k rowI i j) = k_p k"
  "k_coreId (ComputeAndSave k rowI i j) = k_coreId k"
  "k_calls (ComputeAndSave k rowI i j) = k_calls k @ [(i, j)]"
  by (simp_all add: ComputeAndSave_def Let_def)

lemma Process_inner_fields [simp]:
  "k_n (Process_inner k rowI i j) = k_n k"
  "k_totalCoreNum (Process_inner k rowI i j) = k_totalCoreNum k"
  "k_m (Process_inner k rowI i j) = k_m k"
  "k_tileLength (Process_inner k rowI i j) = k_tileLength k"
  "k_xGm (Process_inner k rowI i j) = k_xGm k"
  "k_p (Process_inner k rowI i j) = k_p k"
  "k_coreId (Process_inner k rowI i j) = k_coreId k"
  by (induction k rowI i j rule: Process_inner.induct, subst Process_inner.simps, simp)+

lemma Process_inner_calls:
  "k_calls (Process_inner k rowI i j) =
     k_calls k @ map (\<lambda>t. (i, of_nat t)) [unat j ..< unat (k_n k)]"
proof (induction k rowI i j rule: Process_inner.induct)
  case (1 k rowI i j)
  show ?case
  proof (cases "j < k_n k")
    case True
    then have lt: "unat j < unat (k_n k)"
      by (simp add: word_less_nat_alt)
    have suc: "unat (j + 1) = Suc (unat j)"
      using True by (rule unat_inc_less)
    have "k_calls (Process_inner k rowI i j)
        = k_calls (Process_inner (ComputeAndSave k rowI i j) rowI i (j + 1))"
      using True by (subst Process_inner.simps) simp
    also have "\<dots> = (k_calls k @ [(i, j)]) @ map (\<lambda>t. (i, of_nat t)) [Suc (unat j) ..< unat (k_n k)]"
      using 1 True suc by simp
    also have "\<dots> = k_calls k @ map (\<lambda>t. (i, of_nat t)) [unat j ..< unat (k_n k)]"
      using lt by (simp add: upt_conv_Cons)
    finally show ?thesis .
  next
    case False
    then have "unat (k_n k) \<le> unat j"
      by (simp add: word_less_nat_alt)
    then show ?thesis
      using False by (subst Process_inner.simps) simp
  qed
qed


lemma unat_of_nat_below:
  fixes b :: "'a::len word"
  assumes "t < unat b"
  shows "unat (of_nat t :: 'a word) = t"
proof -
  have "t < 2 ^ LENGTH('a)"
    by (rule less_trans [OF assms unsigned_less])
  then show ?thesis by (simp only: unat_of_nat mod_less)
qed

lemma row_calls_set:
  assumes "i < nn"
  shows "set (row_calls nn i) = {(a, b). a = i \<and> i < b \<and> b < nn}"
proof (rule set_eqI, rule iffI)
  fix x assume "x \<in> set (row_calls nn i)"
  then obtain t where t: "unat (i + 1) \<le> t" "t < unat nn" and x: "x = (i, of_nat t)"
    by (auto simp: row_calls_def)
  have "unat (of_nat t :: u32) = t"
    using t by (simp add: unat_of_nat_below)
  then show "x \<in> {(a, b). a = i \<and> i < b \<and> b < nn}"
    using t assms by (simp add: x word_less_nat_alt unat_inc_less)
next
  fix x assume "x \<in> {(a, b). a = i \<and> i < b \<and> b < nn}"
  then obtain b where x: "x = (i, b)" and b: "i < b" "b < nn"
    by auto
  have "unat (i + 1) \<le> unat b" "unat b < unat nn"
    using b assms by (simp_all add: word_less_nat_alt unat_inc_less)
  moreover have "b = of_nat (unat b)" by simp
  ultimately show "x \<in> set (row_calls nn i)"
    unfolding row_calls_def x by (metis (no_types, lifting) atLeastLessThan_iff image_eqI set_map set_upt)
qed

lemma row_calls_distinct: "distinct (row_calls nn i)"
proof -
  have "inj_on (\<lambda>t. (i, of_nat t :: u32)) {unat (i + 1) ..< unat nn}"
  proof (rule inj_onI)
    fix s t assume s: "s \<in> {unat (i + 1) ..< unat nn}" and t: "t \<in> {unat (i + 1) ..< unat nn}"
      and e: "(i, of_nat s :: u32) = (i, of_nat t)"
    have "unat (of_nat s :: u32) = s" "unat (of_nat t :: u32) = t"
      using s t unat_of_nat_below [of s nn] unat_of_nat_below [of t nn] by simp_all
    then show "s = t" using e by (metis prod.inject)
  qed
  then show ?thesis
    by (simp add: row_calls_def distinct_map)
qed

lemma Process_inner_row:
  "k_calls (Process_inner k rowI i (i + 1)) = k_calls k @ row_calls (k_n k) i"
  by (simp add: Process_inner_calls row_calls_def)

lemma owned_from_step:
  assumes lt: "i < nn" and c: "0 < unat c" and fit: "unat nn + unat c \<le> 2 ^ 32"
  shows "owned_from nn c i = {(a, b). a = i \<and> i < b \<and> b < nn} \<union> owned_from nn c (i + c)"
    and "{(a, b). a = i \<and> i < b \<and> b < nn} \<inter> owned_from nn c (i + c) = {}"
    and "unat (i + c) = unat i + unat c"
proof -
  have "unat i < unat nn" using lt by (simp add: word_less_nat_alt)
  then have "unat i + unat c < 2 ^ LENGTH(32)" using fit by simp
  then show u: "unat (i + c) = unat i + unat c"
    by (simp add: unat_add_lem [THEN iffD1])
  have le: "i + c \<le> a \<longleftrightarrow> unat i + unat c \<le> unat a" for a
    by (simp add: word_le_nat_alt u)
  have dv: "unat i \<le> A \<and> unat c dvd (A - unat i) \<longleftrightarrow>
            A = unat i \<or> (unat i + unat c \<le> A \<and> unat c dvd (A - (unat i + unat c)))" for A
  proof (cases "A = unat i")
    case True
    then show ?thesis by simp
  next
    case False
    show ?thesis
    proof
      assume h: "unat i \<le> A \<and> unat c dvd (A - unat i)"
      then obtain q where q: "A - unat i = unat c * q" by (auto elim: dvdE)
      have "q \<noteq> 0" using q h False by (cases q) auto
      then obtain r where r: "q = Suc r" by (cases q) auto
      have "A = unat i + unat c + unat c * r" using q r h by simp
      then show "A = unat i \<or> (unat i + unat c \<le> A \<and> unat c dvd (A - (unat i + unat c)))"
        by simp
    next
      assume "A = unat i \<or> (unat i + unat c \<le> A \<and> unat c dvd (A - (unat i + unat c)))"
      then have g: "unat i + unat c \<le> A" "unat c dvd (A - (unat i + unat c))"
        using False by simp_all
      then obtain q where "A - (unat i + unat c) = unat c * q" by (auto elim: dvdE)
      then have "A - unat i = unat c * Suc q" using g by simp
      then show "unat i \<le> A \<and> unat c dvd (A - unat i)"
        using g by (metis add_leE dvd_triv_left)
    qed
  qed
  show "owned_from nn c i = {(a, b). a = i \<and> i < b \<and> b < nn} \<union> owned_from nn c (i + c)"
  proof (rule set_eqI)
    fix x :: "u32 \<times> u32"
    obtain a b where x: "x = (a, b)" by (cases x)
    have "a = i \<longleftrightarrow> unat a = unat i" by (simp add: word_unat_eq_iff)
    then show "x \<in> owned_from nn c i \<longleftrightarrow>
        x \<in> {(a, b). a = i \<and> i < b \<and> b < nn} \<union> owned_from nn c (i + c)"
      using dv [of "unat a"] by (auto simp: x owned_from_def le u word_le_nat_alt)
  qed
  show "{(a, b). a = i \<and> i < b \<and> b < nn} \<inter> owned_from nn c (i + c) = {}"
    using c by (auto simp: owned_from_def le)
qed


lemma Process_outer_calls:
  assumes c: "0 < unat (k_totalCoreNum k)"
    and fit: "unat (k_n k) + unat (k_totalCoreNum k) \<le> 2 ^ 32"
    and fuel: "unat (k_n k) - unat i < fuel"
  shows "\<exists>k' ps. Process_outer fuel k i = Some k' \<and> k_calls k' = k_calls k @ ps \<and>
           distinct ps \<and> set ps = owned_from (k_n k) (k_totalCoreNum k) i"
  using assms
proof (induction fuel arbitrary: k i)
  case 0
  then show ?case by simp
next
  case (Suc fuel)
  show ?case
  proof (cases "i < k_n k")
    case False
    then have "owned_from (k_n k) (k_totalCoreNum k) i = {}"
      by (auto simp: owned_from_def)
    then show ?thesis using False by simp
  next
    case True
    let ?k1 = "Process_inner k (CopyRow k i) i (i + 1)"
    let ?c = "k_totalCoreNum k"
    note st = owned_from_step [OF True Suc.prems(1) Suc.prems(2)]
    have lt: "unat i < unat (k_n k)"
      using True by (simp add: word_less_nat_alt)
    have "unat (k_n ?k1) - unat (i + k_totalCoreNum ?k1) < fuel"
      using Suc.prems(1,3) lt st(3) by simp
    moreover have "0 < unat (k_totalCoreNum ?k1)"
      and "unat (k_n ?k1) + unat (k_totalCoreNum ?k1) \<le> 2 ^ 32"
      using Suc.prems by simp_all
    ultimately obtain k' ps where r: "Process_outer fuel ?k1 (i + k_totalCoreNum ?k1) = Some k'"
        "k_calls k' = k_calls ?k1 @ ps" "distinct ps"
        "set ps = owned_from (k_n ?k1) (k_totalCoreNum ?k1) (i + k_totalCoreNum ?k1)"
      using Suc.IH [of ?k1 "i + k_totalCoreNum ?k1"] by blast
    have run: "Process_outer (Suc fuel) k i = Some k'"
      using True r(1) by (simp add: Let_def)
    have calls: "k_calls k' = k_calls k @ (row_calls (k_n k) i @ ps)"
      using r(2) by (simp add: Process_inner_row)
    have dist: "distinct (row_calls (k_n k) i @ ps)"
      using r(3,4) st(2) True by (simp add: row_calls_distinct row_calls_set)
    have sets: "set (row_calls (k_n k) i @ ps) = owned_from (k_n k) ?c i"
    proof -
      have "set (row_calls (k_n k) i @ ps) = set (row_calls (k_n k) i) \<union> set ps"
        by simp
      also have "\<dots> = {(a, b). a = i \<and> i < b \<and> b < k_n k} \<union> owned_from (k_n k) ?c (i + ?c)"
        using r(4) by (simp only: row_calls_set [OF True] Process_inner_fields)
      also have "\<dots> = owned_from (k_n k) ?c i"
        by (rule st(1) [symmetric])
      finally show ?thesis .
    qed
    show ?thesis
      using run calls dist sets by blast
  qed
qed

lemma mod_eq_iff_dvd_diff:
  fixes A C U :: nat
  assumes "U < C"
  shows "U \<le> A \<and> C dvd (A - U) \<longleftrightarrow> A mod C = U"
proof
  assume h: "U \<le> A \<and> C dvd (A - U)"
  then obtain q where "A - U = C * q" by (auto elim: dvdE)
  then have "A = U + C * q" using h by simp
  then show "A mod C = U" using assms by simp
next
  assume h: "A mod C = U"
  have "A - A mod C = C * (A div C)"
    by (simp add: minus_mod_eq_mult_div)
  then show "U \<le> A \<and> C dvd (A - U)"
    using h by (metis dvd_triv_left mod_less_eq_dividend)
qed

lemma pdist_calls:
  assumes c: "1 \<le> td_usedCoreNum tData"
    and fit: "unat (td_n tData) + unat (td_usedCoreNum tData) \<le> 2 ^ 32"
  shows "(\<forall>u. u < td_usedCoreNum tData \<longrightarrow>
            (\<exists>k'. pdist (Suc (unat (td_n tData))) x y tData u = Some k' \<and>
                  distinct (k_calls k') \<and>
                  set (k_calls k') =
                    {(i, j). i < j \<and> j < td_n tData \<and>
                             unat i mod unat (td_usedCoreNum tData) = unat u})) \<and>
         (\<forall>i j. i < j \<and> j < td_n tData \<longrightarrow>
            (\<exists>!u. u < td_usedCoreNum tData \<and>
                  (\<exists>k'. pdist (Suc (unat (td_n tData))) x y tData u = Some k' \<and>
                        (i, j) \<in> set (k_calls k'))))"
proof -
  let ?n = "td_n tData" and ?c = "td_usedCoreNum tData"
  let ?run = "\<lambda>u. pdist (Suc (unat ?n)) x y tData u"
  let ?own = "\<lambda>u. {(i, j). i < j \<and> j < ?n \<and> unat i mod unat ?c = unat u}"
  have c0: "0 < unat ?c"
    using c by (simp add: word_le_nat_alt)
  have unit: "\<exists>k'. ?run u = Some k' \<and> distinct (k_calls k') \<and> set (k_calls k') = ?own u"
    if u: "u < ?c" for u
  proof -
    let ?k = "Init x y tData u"
    have f: "k_n ?k = ?n" "k_totalCoreNum ?k = ?c" "k_coreId ?k = u" "k_calls ?k = []"
      by (simp_all add: Init_def)
    have "\<exists>k' ps. Process_outer (Suc (unat ?n)) ?k u = Some k' \<and> k_calls k' = k_calls ?k @ ps \<and>
            distinct ps \<and> set ps = owned_from (k_n ?k) (k_totalCoreNum ?k) u"
      using c0 fit by (intro Process_outer_calls) (simp_all add: f)
    then obtain k' where k': "Process_outer (Suc (unat ?n)) ?k u = Some k'"
        "distinct (k_calls k')" "set (k_calls k') = owned_from ?n ?c u"
      by (auto simp: f)
    have U: "unat u < unat ?c"
      using u by (simp add: word_less_nat_alt)
    have "owned_from ?n ?c u = ?own u"
      using mod_eq_iff_dvd_diff [OF U] by (auto simp: owned_from_def word_le_nat_alt)
    moreover have "?run u = Some k'"
      using u k'(1) by (simp add: pdist_def Process_def f)
    ultimately show ?thesis
      using k' by simp
  qed
  have uniq: "\<exists>!u. u < ?c \<and> (\<exists>k'. ?run u = Some k' \<and> (i, j) \<in> set (k_calls k'))"
    if ij: "i < j \<and> j < ?n" for i j
  proof (rule ex1I [of _ "of_nat (unat i mod unat ?c)"])
    let ?u = "of_nat (unat i mod unat ?c) :: u32"
    have m: "unat i mod unat ?c < unat ?c"
      using c0 by simp
    then have uu: "unat ?u = unat i mod unat ?c"
      by (rule unat_of_nat_below)
    then have lt: "?u < ?c"
      using m by (simp add: word_less_nat_alt)
    from unit [OF lt] obtain k' where "?run ?u = Some k'" "set (k_calls k') = ?own ?u"
      by blast
    then show "?u < ?c \<and> (\<exists>k'. ?run ?u = Some k' \<and> (i, j) \<in> set (k_calls k'))"
      using lt ij uu by simp
  next
    fix u assume h: "u < ?c \<and> (\<exists>k'. ?run u = Some k' \<and> (i, j) \<in> set (k_calls k'))"
    then obtain k' where r: "?run u = Some k'" "(i, j) \<in> set (k_calls k')"
      by blast
    from h unit obtain k'' where "?run u = Some k''" "set (k_calls k'') = ?own u"
      by blast
    then have "unat i mod unat ?c = unat u"
      using r by simp
    then show "u = of_nat (unat i mod unat ?c)"
      by simp
  qed
  show ?thesis
    using unit uniq by blast
qed

lemma Process_outer_numeral:
  "Process_outer (numeral v) k i =
     (if i < k_n k then
        Process_outer (pred_numeral v) (Process_inner k (CopyRow k i) i (i + 1))
          (i + k_totalCoreNum k)
      else Some k)"
  by (simp add: numeral_eq_Suc Let_def)

lemma u32_three_not_le: "\<not> (3 :: u32) \<le> 1" "\<not> (3 :: u32) \<le> 0" "\<not> (3 :: u32) \<le> 2"
  by (simp_all add: word_le_nat_alt)

lemma pdist_run_7_3: "\<exists>k'. pdist 8 (\<lambda>_. Fin 0) (\<lambda>_. Fin 0)
            \<lparr>td_n = 7, td_m = 8, td_p = Fin 2, td_tileLength = 8, td_usedCoreNum = 3,
             td_tilingKey = 1\<rparr> 1 = Some k' \<and>
         k_calls k' = [(1, 2), (1, 3), (1, 4), (1, 5), (1, 6), (4, 5), (4, 6)]"
  by (simp add: pdist_def Process_def Init_def Process_outer_numeral Process_inner_calls u32_three_not_le)


text \<open>
  Claim C1 as stated ("for every \<open>n\<close> and every unit count") fails where
  \<^verbatim>\<open>i += totalCoreNum\<close> wraps around in \<^verbatim>\<open>uint32_t\<close>: with \<open>n = usedCoreNum = 2^32 - 1\<close>,
  unit 1 goes from row 1 on to row 0, which unit 0 owns, and the pair \<open>(0, 1)\<close> is
  produced by both.
\<close>

theorem Process_duplicates:
  "\<exists>k0 k1.
     pdist 2 (\<lambda>_. Fin 0) (\<lambda>_. Fin 0)
       \<lparr>td_n = 4294967295, td_m = 8, td_p = Fin 2, td_tileLength = 8,
        td_usedCoreNum = 4294967295, td_tilingKey = 1\<rparr> 0 = Some k0 \<and>
     pdist 3 (\<lambda>_. Fin 0) (\<lambda>_. Fin 0)
       \<lparr>td_n = 4294967295, td_m = 8, td_p = Fin 2, td_tileLength = 8,
        td_usedCoreNum = 4294967295, td_tilingKey = 1\<rparr> 1 = Some k1 \<and>
     (0, 1) \<in> set (k_calls k0) \<and> (0, 1) \<in> set (k_calls k1)"
proof -
  let ?td = "\<lparr>td_n = 4294967295, td_m = 8, td_p = Fin 2, td_tileLength = 8,
        td_usedCoreNum = 4294967295, td_tilingKey = 1\<rparr> :: PdistTilingData"
  let ?K0 = "Init (\<lambda>_. Fin 0) (\<lambda>_. Fin 0) ?td 0"
  let ?K1 = "Init (\<lambda>_. Fin 0) (\<lambda>_. Fin 0) ?td 1"
  let ?k0 = "Process_inner ?K0 (CopyRow ?K0 0) 0 (0 + 1)"
  let ?k1a = "Process_inner ?K1 (CopyRow ?K1 1) 1 (1 + 1)"
  let ?k1 = "Process_inner ?k1a (CopyRow ?k1a 0) 0 (0 + 1)"
  have f0: "k_n ?K0 = 4294967295" "k_totalCoreNum ?K0 = 4294967295" "k_coreId ?K0 = 0"
    and f1: "k_n ?K1 = 4294967295" "k_totalCoreNum ?K1 = 4294967295" "k_coreId ?K1 = 1"
    by (simp_all add: Init_def)
  have cmp: "\<not> (4294967295 :: u32) \<le> 0" "\<not> (4294967295 :: u32) \<le> 1"
    "(0 :: u32) < 4294967295" "(1 :: u32) < 4294967295"
    by (simp_all add: word_le_nat_alt word_less_nat_alt)
  have wrap: "(4294967296 :: u32) = 0" "(4294967297 :: u32) = 1"
    by simp_all
  have r0: "pdist 2 (\<lambda>_. Fin 0) (\<lambda>_. Fin 0) ?td 0 = Some ?k0"
    unfolding pdist_def Process_def
    by (simp add: f0 cmp Process_outer_numeral del: Process_outer.simps)
       (simp add: f0 cmp)
  have r1: "pdist 3 (\<lambda>_. Fin 0) (\<lambda>_. Fin 0) ?td 1 = Some ?k1"
    unfolding pdist_def Process_def
    by (simp add: f1 cmp Process_outer_numeral del: Process_outer.simps)
       (simp add: f1 cmp wrap)
  have m: "(0 :: u32, 1 :: u32) \<in> set (row_calls 4294967295 0)"
    using cmp by (simp add: row_calls_set)
  have c0: "(0, 1) \<in> set (k_calls ?k0)"
    using m by (simp only: Process_inner_row f0 set_append Un_iff simp_thms)
  have "k_n ?k1a = 4294967295"
    by (simp add: f1)
  then have c1: "(0, 1) \<in> set (k_calls ?k1)"
    using m by (simp only: Process_inner_row set_append Un_iff simp_thms)
  show ?thesis
    using r0 r1 c0 c1 by blast
qed


lemma pdist_writes:
  assumes c: "1 \<le> td_usedCoreNum tData"
    and fit: "unat (td_n tData) + unat (td_usedCoreNum tData) \<le> 2 ^ 32"
    and small: "unat (td_n tData) \<le> 2 ^ 31"
    and t: "t < unat (td_n tData) * (unat (td_n tData) - 1) div 2"
  shows "\<exists>!(u, i, j). u < td_usedCoreNum tData \<and>
           (\<exists>k'. pdist (Suc (unat (td_n tData))) x y tData u = Some k' \<and>
                 (i, j) \<in> set (k_calls k')) \<and>
           unat (outIdx_of (td_n tData) i j) = t"
proof -
  let ?n = "td_n tData" and ?c = "td_usedCoreNum tData"
  let ?run = "\<lambda>u. pdist (Suc (unat ?n)) x y tData u"
  let ?W = "\<lambda>(u, i, j). u < ?c \<and> (\<exists>k'. ?run u = Some k' \<and> (i, j) \<in> set (k_calls k')) \<and>
              unat (outIdx_of ?n i j) = t"
  note pc = pdist_calls [OF c fit, of x y]
  have own: "i < j \<and> j < ?n \<and> unat i mod unat ?c = unat u"
    if "u < ?c" "?run u = Some k'" "(i, j) \<in> set (k_calls k')" for u k' i j
  proof -
    from pc that(1) obtain k'' where "?run u = Some k''"
        "set (k_calls k'') = {(i, j). i < j \<and> j < ?n \<and> unat i mod unat ?c = unat u}"
      by blast
    then show ?thesis using that(2,3) by simp
  qed
  from t obtain I J where IJ: "I < J" "J < unat ?n" and off: "spec_offset (unat ?n) I J = t"
    using spec_offset_surj by blast
  let ?i = "of_nat I :: u32" and ?j = "of_nat J :: u32"
  have uI: "unat ?i = I" and uJ: "unat ?j = J"
    using IJ unat_of_nat_below [of I ?n] unat_of_nat_below [of J ?n] by simp_all
  have lt: "?i < ?j \<and> ?j < ?n"
    using IJ uI uJ by (simp add: word_less_nat_alt)
  then have idx: "unat (outIdx_of ?n ?i ?j) = t"
    using small off uI uJ by (simp add: outIdx_of_unat)
  from pc lt obtain u where u: "u < ?c" "\<exists>k'. ?run u = Some k' \<and> (?i, ?j) \<in> set (k_calls k')"
    by blast
  have ex: "?W (u, ?i, ?j)"
    using u idx by simp
  have un: "w = (u, ?i, ?j)" if w: "?W w" for w
  proof -
    obtain u' i' j' where ww: "w = (u', i', j')" by (cases w)
    from w obtain k' where r: "u' < ?c" "?run u' = Some k'" "(i', j') \<in> set (k_calls k')"
        "unat (outIdx_of ?n i' j') = t"
      by (auto simp: ww)
    have o': "i' < j' \<and> j' < ?n \<and> unat i' mod unat ?c = unat u'"
      using r by (intro own)
    from u obtain k0 where "?run u = Some k0" "(?i, ?j) \<in> set (k_calls k0)"
      by blast
    then have o: "unat ?i mod unat ?c = unat u"
      using u(1) own by blast
    have "spec_offset (unat ?n) (unat i') (unat j') = spec_offset (unat ?n) I J"
      using o' r(4) small off by (simp add: outIdx_of_unat)
    then have "unat i' = I \<and> unat j' = J"
      using o' IJ by (intro spec_offset_inj [of _ _ "unat ?n"]) (simp_all add: word_less_nat_alt)
    then have e: "i' = ?i" "j' = ?j"
      using uI uJ by (simp_all add: word_unat_eq_iff)
    then have "unat u' = unat u"
      using o o' by simp
    then show ?thesis
      using e by (simp add: ww word_unat_eq_iff)
  qed
  show ?thesis
    using ex un by (intro ex1I [of _ "(u, ?i, ?j)"]) blast+
qed

text \<open>
  Claim C1, as amended. Let the unit count be at least 1 and \<open>n + usedCoreNum \<le> 2^32\<close>.
  Then every unit \<open>u < usedCoreNum\<close> ends its \<^verbatim>\<open>Process\<close> (within \<open>n + 1\<close> passes of the
  outer loop), and its calls of \<^verbatim>\<open>ComputeAndSave\<close> are, each once, the pairs \<open>i < j < n\<close>
  with \<open>i mod usedCoreNum = u\<close>. So every pair \<open>i < j < n\<close> is produced by exactly one unit.
  Where moreover \<open>n \<le> 2^31\<close>, every output element \<open>t < n * (n - 1) / 2\<close> is written by
  exactly one call of exactly one unit.
\<close>

theorem Process_partition:
  assumes c: "1 \<le> td_usedCoreNum tData"
    and fit: "unat (td_n tData) + unat (td_usedCoreNum tData) \<le> 2 ^ 32"
  shows "(\<forall>u. u < td_usedCoreNum tData \<longrightarrow>
            (\<exists>k'. pdist (Suc (unat (td_n tData))) x y tData u = Some k' \<and>
                  distinct (k_calls k') \<and>
                  set (k_calls k') =
                    {(i, j). i < j \<and> j < td_n tData \<and>
                             unat i mod unat (td_usedCoreNum tData) = unat u})) \<and>
         (\<forall>i j. i < j \<and> j < td_n tData \<longrightarrow>
            (\<exists>!u. u < td_usedCoreNum tData \<and>
                  (\<exists>k'. pdist (Suc (unat (td_n tData))) x y tData u = Some k' \<and>
                        (i, j) \<in> set (k_calls k')))) \<and>
         (unat (td_n tData) \<le> 2 ^ 31 \<longrightarrow>
            (\<forall>t. t < unat (td_n tData) * (unat (td_n tData) - 1) div 2 \<longrightarrow>
               (\<exists>!(u, i, j). u < td_usedCoreNum tData \<and>
                  (\<exists>k'. pdist (Suc (unat (td_n tData))) x y tData u = Some k' \<and>
                        (i, j) \<in> set (k_calls k')) \<and>
                  unat (outIdx_of (td_n tData) i j) = t)))"
proof (intro conjI allI impI)
  fix u assume "u < td_usedCoreNum tData"
  then show "\<exists>k'. pdist (Suc (unat (td_n tData))) x y tData u = Some k' \<and>
                  distinct (k_calls k') \<and>
                  set (k_calls k') =
                    {(i, j). i < j \<and> j < td_n tData \<and>
                             unat i mod unat (td_usedCoreNum tData) = unat u}"
    by (rule pdist_calls [OF c fit, THEN conjunct1, rule_format])
next
  fix i j assume "i < j \<and> j < td_n tData"
  then show "\<exists>!u. u < td_usedCoreNum tData \<and>
                  (\<exists>k'. pdist (Suc (unat (td_n tData))) x y tData u = Some k' \<and>
                        (i, j) \<in> set (k_calls k'))"
    by (rule pdist_calls [OF c fit, THEN conjunct2, rule_format])
next
  fix t assume "unat (td_n tData) \<le> 2 ^ 31"
    and "t < unat (td_n tData) * (unat (td_n tData) - 1) div 2"
  then show "\<exists>!(u, i, j). u < td_usedCoreNum tData \<and>
                  (\<exists>k'. pdist (Suc (unat (td_n tData))) x y tData u = Some k' \<and>
                        (i, j) \<in> set (k_calls k')) \<and>
                  unat (outIdx_of (td_n tData) i j) = t"
    by (rule pdist_writes [OF c fit])
qed

text \<open>At \<open>n = 7\<close> with 3 units: unit 1 owns rows 1 and 4; the pair \<open>(4, 6)\<close> has one
  owner; the output element 20 has one writer.\<close>

theorem Process_partition_witness:
  "(\<exists>k'. pdist 8 (\<lambda>_. Fin 0) (\<lambda>_. Fin 0)
            \<lparr>td_n = 7, td_m = 8, td_p = Fin 2, td_tileLength = 8, td_usedCoreNum = 3,
             td_tilingKey = 1\<rparr> 1 = Some k' \<and>
         k_calls k' = [(1, 2), (1, 3), (1, 4), (1, 5), (1, 6), (4, 5), (4, 6)] \<and>
         distinct (k_calls k') \<and>
         set (k_calls k') = {(i, j). i < j \<and> j < 7 \<and> unat i mod 3 = 1}) \<and>
   (\<exists>!u. u < 3 \<and>
         (\<exists>k'. pdist 8 (\<lambda>_. Fin 0) (\<lambda>_. Fin 0)
            \<lparr>td_n = 7, td_m = 8, td_p = Fin 2, td_tileLength = 8, td_usedCoreNum = 3,
             td_tilingKey = 1\<rparr> u = Some k' \<and> (4, 6) \<in> set (k_calls k'))) \<and>
   (\<exists>!(u, i, j). u < 3 \<and>
         (\<exists>k'. pdist 8 (\<lambda>_. Fin 0) (\<lambda>_. Fin 0)
            \<lparr>td_n = 7, td_m = 8, td_p = Fin 2, td_tileLength = 8, td_usedCoreNum = 3,
             td_tilingKey = 1\<rparr> u = Some k' \<and> (i, j) \<in> set (k_calls k')) \<and>
         unat (outIdx_of 7 i j) = 20)"
proof -
  let ?td = "\<lparr>td_n = 7, td_m = 8, td_p = Fin 2, td_tileLength = 8, td_usedCoreNum = 3,
             td_tilingKey = 1\<rparr> :: PdistTilingData"
  have h1: "1 \<le> td_usedCoreNum ?td"
    and h2: "unat (td_n ?td) + unat (td_usedCoreNum ?td) \<le> 2 ^ 32"
    by simp_all
  note inst = Process_partition [OF h1 h2, of "\<lambda>_. Fin 0" "\<lambda>_. Fin 0"]
  have lt: "(1 :: u32) < td_usedCoreNum ?td" "(4 :: u32) < 6 \<and> (6 :: u32) < td_n ?td"
    by simp_all
  have a: "\<exists>k'. pdist 8 (\<lambda>_. Fin 0) (\<lambda>_. Fin 0) ?td 1 = Some k' \<and>
      distinct (k_calls k') \<and>
      set (k_calls k') = {(i, j). i < j \<and> j < 7 \<and> unat i mod 3 = 1}"
    using inst [THEN conjunct1, rule_format, OF lt(1)] by simp
  have b: "\<exists>!u. u < 3 \<and>
         (\<exists>k'. pdist 8 (\<lambda>_. Fin 0) (\<lambda>_. Fin 0) ?td u = Some k' \<and> (4, 6) \<in> set (k_calls k'))"
    using inst [THEN conjunct2, THEN conjunct1, rule_format, OF lt(2)] by simp
  have sm: "unat (td_n ?td) \<le> 2 ^ 31" "20 < unat (td_n ?td) * (unat (td_n ?td) - 1) div 2"
    by simp_all
  have w: "\<exists>!(u, i, j). u < 3 \<and>
         (\<exists>k'. pdist 8 (\<lambda>_. Fin 0) (\<lambda>_. Fin 0) ?td u = Some k' \<and> (i, j) \<in> set (k_calls k')) \<and>
         unat (outIdx_of 7 i j) = 20"
    using inst [THEN conjunct2, THEN conjunct2, rule_format, OF sm] by simp
  from a obtain k' where k': "pdist 8 (\<lambda>_. Fin 0) (\<lambda>_. Fin 0) ?td 1 = Some k'"
      "distinct (k_calls k')"
      "set (k_calls k') = {(i, j). i < j \<and> j < 7 \<and> unat i mod 3 = 1}"
    by blast
  from pdist_run_7_3 obtain k'' where k'': "pdist 8 (\<lambda>_. Fin 0) (\<lambda>_. Fin 0) ?td 1 = Some k''"
      "k_calls k'' = [(1, 2), (1, 3), (1, 4), (1, 5), (1, 6), (4, 5), (4, 6)]"
    by blast
  have "k'' = k'"
    using k'(1) k''(1) by simp
  then have "k_calls k' = [(1, 2), (1, 3), (1, 4), (1, 5), (1, 6), (4, 5), (4, 6)]"
    using k''(2) by simp
  then have "\<exists>k'. pdist 8 (\<lambda>_. Fin 0) (\<lambda>_. Fin 0) ?td 1 = Some k' \<and>
         k_calls k' = [(1, 2), (1, 3), (1, 4), (1, 5), (1, 6), (4, 5), (4, 6)] \<and>
         distinct (k_calls k') \<and>
         set (k_calls k') = {(i, j). i < j \<and> j < 7 \<and> unat i mod 3 = 1}"
    using k' by (intro exI [of _ k'] conjI)
  then show ?thesis
    using b w by (intro conjI)
qed


section \<open>The value written for a pair\<close>

text \<open>
  A run of \<^verbatim>\<open>Process\<close> is a sequence of calls of \<^verbatim>\<open>ComputeAndSave\<close>, each on the row
  staged for its first index: the input is never written, so every call sees the same
  staged rows, and where the output index is injective the element of a pair keeps
  the value of the one call made for it.
\<close>

lemma k_yRaw_ComputeAndSave:
  "k_yRaw (ComputeAndSave k rowI i j) t =
     (if t = unat (outIdx_of (k_n k) i j)
      then vector_core (k_p k) (unat (k_tileLength k)) rowI (CopyRow k j)
      else k_yRaw k t)"
  by (simp add: ComputeAndSave_def Let_def)

lemma CopyRow_ComputeAndSave [simp]: "CopyRow (ComputeAndSave k rowI i j) r = CopyRow k r"
  by (simp add: CopyRow_def)

lemma CopyRow_Process_inner [simp]: "CopyRow (Process_inner k rowI i j) r = CopyRow k r"
  by (simp add: CopyRow_def)

lemma call_step_fields [simp]:
  "k_n (call_step k c) = k_n k"
  "k_totalCoreNum (call_step k c) = k_totalCoreNum k"
  "k_tileLength (call_step k c) = k_tileLength k"
  "k_p (call_step k c) = k_p k"
  "CopyRow (call_step k c) r = CopyRow k r"
  "k_calls (call_step k c) = k_calls k @ [c]"
  by (simp_all add: call_step_def)

lemma foldl_call_step_fields [simp]:
  "k_n (foldl call_step k cs) = k_n k"
  "k_totalCoreNum (foldl call_step k cs) = k_totalCoreNum k"
  "k_tileLength (foldl call_step k cs) = k_tileLength k"
  "k_p (foldl call_step k cs) = k_p k"
  "CopyRow (foldl call_step k cs) r = CopyRow k r"
  "k_calls (foldl call_step k cs) = k_calls k @ cs"
  by (induction cs arbitrary: k; simp)+

lemma Process_inner_foldl:
  "Process_inner k (CopyRow k i) i j
     = foldl call_step k (map (\<lambda>t. (i, of_nat t)) [unat j ..< unat (k_n k)])"
proof (induction k "CopyRow k i" i j rule: Process_inner.induct)
  case (1 k i j)
  show ?case
  proof (cases "j < k_n k")
    case True
    then have lt: "unat j < unat (k_n k)"
      by (simp add: word_less_nat_alt)
    have suc: "unat (j + 1) = Suc (unat j)"
      using True by (rule unat_inc_less)
    have "Process_inner k (CopyRow k i) i j
        = Process_inner (ComputeAndSave k (CopyRow k i) i j) (CopyRow k i) i (j + 1)"
      using True by (subst Process_inner.simps) simp
    also have "\<dots> = foldl call_step (ComputeAndSave k (CopyRow k i) i j)
                     (map (\<lambda>t. (i, of_nat t)) [Suc (unat j) ..< unat (k_n k)])"
      using 1 [OF True] suc by simp
    also have "\<dots> = foldl call_step k (map (\<lambda>t. (i, of_nat t)) [unat j ..< unat (k_n k)])"
      using lt by (simp add: upt_conv_Cons call_step_def)
    finally show ?thesis .
  next
    case False
    then have "unat (k_n k) \<le> unat j"
      by (simp add: word_less_nat_alt)
    then show ?thesis
      using False by (subst Process_inner.simps) simp
  qed
qed

lemma Process_outer_foldl:
  "Process_outer fuel k i = Some k' \<Longrightarrow> \<exists>cs. k' = foldl call_step k cs"
proof (induction fuel arbitrary: k i)
  case 0
  then show ?case by simp
next
  case (Suc fuel)
  show ?case
  proof (cases "i < k_n k")
    case False
    then have "k' = foldl call_step k []"
      using Suc.prems by simp
    then show ?thesis by blast
  next
    case True
    let ?row = "map (\<lambda>t. (i, of_nat t)) [unat (i + 1) ..< unat (k_n k)]"
    have "Process_outer fuel (foldl call_step k ?row) (i + k_totalCoreNum k) = Some k'"
      using Suc.prems True by (simp add: Let_def Process_inner_foldl)
    then obtain cs where "k' = foldl call_step (foldl call_step k ?row) cs"
      using Suc.IH by blast
    then have "k' = foldl call_step k (?row @ cs)"
      by simp
    then show ?thesis by blast
  qed
qed

lemma foldl_call_step_yRaw:
  assumes "distinct cs"
    and "inj_on (\<lambda>(i, j). outIdx_of (k_n k) i j) (set cs)"
    and "(i, j) \<in> set cs"
  shows "k_yRaw (foldl call_step k cs) (unat (outIdx_of (k_n k) i j))
         = vector_core (k_p k) (unat (k_tileLength k)) (CopyRow k i) (CopyRow k j)"
  using assms
proof (induction cs rule: rev_induct)
  case Nil
  then show ?case by simp
next
  case (snoc c cs)
  let ?k = "foldl call_step k cs"
  obtain a b where c: "c = (a, b)" by (cases c)
  have y: "k_yRaw (call_step ?k c) t =
      (if t = unat (outIdx_of (k_n k) a b)
       then vector_core (k_p k) (unat (k_tileLength k)) (CopyRow k a) (CopyRow k b)
       else k_yRaw ?k t)" for t
    by (simp add: call_step_def c ComputeAndSave_def Let_def)
  show ?case
  proof (cases "(i, j) = c")
    case True
    then show ?thesis
      using y by (simp add: c)
  next
    case False
    then have mem: "(i, j) \<in> set cs"
      using snoc.prems by simp
    have "outIdx_of (k_n k) i j \<noteq> outIdx_of (k_n k) a b"
    proof
      assume "outIdx_of (k_n k) i j = outIdx_of (k_n k) a b"
      then have "(i, j) = (a, b)"
        using snoc.prems(2) mem by (auto simp: inj_on_def c)
      then show False using False c by simp
    qed
    then have ne: "unat (outIdx_of (k_n k) i j) \<noteq> unat (outIdx_of (k_n k) a b)"
      by (simp add: word_unat_eq_iff)
    have "inj_on (\<lambda>(i, j). outIdx_of (k_n k) i j) (set cs)"
      using snoc.prems(2) by (rule inj_on_subset) auto
    then have "k_yRaw ?k (unat (outIdx_of (k_n k) i j))
        = vector_core (k_p k) (unat (k_tileLength k)) (CopyRow k i) (CopyRow k j)"
      using snoc.IH snoc.prems(1) mem by simp
    then show ?thesis
      using y ne by simp
  qed
qed

lemma outIdx_of_inj_on:
  fixes nn :: u32
  assumes small: "unat nn \<le> 2 ^ 31" and sub: "S \<subseteq> {(i, j). i < j \<and> j < nn}"
  shows "inj_on (\<lambda>(i, j). outIdx_of nn i j) S"
proof (rule inj_onI)
  fix p q assume p: "p \<in> S" and q: "q \<in> S"
    and e: "(\<lambda>(i, j). outIdx_of nn i j) p = (\<lambda>(i, j). outIdx_of nn i j) q"
  obtain i j where pp: "p = (i, j)" by (cases p)
  obtain i' j' where qq: "q = (i', j')" by (cases q)
  have a: "i < j" "j < nn" and b: "i' < j'" "j' < nn"
    using p q sub pp qq by auto
  have "spec_offset (unat nn) (unat i) (unat j) = spec_offset (unat nn) (unat i') (unat j')"
    using e a b small outIdx_of_unat [of i j nn] outIdx_of_unat [of i' j' nn]
    by (simp add: pp qq)
  then have "unat i = unat i' \<and> unat j = unat j'"
    using a b by (intro spec_offset_inj [of _ _ "unat nn"]) (simp_all add: word_less_nat_alt)
  then show "p = q"
    by (simp add: pp qq word_unat_eq_iff)
qed

lemma pdist_output:
  assumes c: "1 \<le> td_usedCoreNum tData"
    and fit: "unat (td_n tData) + unat (td_usedCoreNum tData) \<le> 2 ^ 32"
    and small: "unat (td_n tData) \<le> 2 ^ 31"
    and ij: "i < j \<and> j < td_n tData"
  shows "\<exists>u k'. u < td_usedCoreNum tData \<and>
           pdist (Suc (unat (td_n tData))) x y tData u = Some k' \<and>
           (i, j) \<in> set (k_calls k') \<and>
           k_yRaw k' (unat (outIdx_of (td_n tData) i j))
             = vector_core (td_p tData) (unat (td_tileLength tData))
                 (DataCopy x (unat (i * td_m tData)) (unat (td_tileLength tData)))
                 (DataCopy x (unat (j * td_m tData)) (unat (td_tileLength tData)))"
proof -
  let ?n = "td_n tData" and ?c = "td_usedCoreNum tData"
  from pdist_calls [OF c fit, of x y, THEN conjunct2, rule_format, OF ij]
  obtain u k' where u: "u < ?c" and run: "pdist (Suc (unat ?n)) x y tData u = Some k'"
    and mem: "(i, j) \<in> set (k_calls k')"
    by blast
  from pdist_calls [OF c fit, of x y, THEN conjunct1, rule_format, OF u]
  obtain k'' where "pdist (Suc (unat ?n)) x y tData u = Some k''" "distinct (k_calls k'')"
    "set (k_calls k'') = {(i, j). i < j \<and> j < ?n \<and> unat i mod unat ?c = unat u}"
    by blast
  then have dist: "distinct (k_calls k')"
    and sub: "set (k_calls k') \<subseteq> {(i, j). i < j \<and> j < ?n}"
    using run by auto
  let ?K = "Init x y tData u"
  have f: "k_n ?K = ?n" "k_totalCoreNum ?K = ?c" "k_coreId ?K = u" "k_calls ?K = []"
    "k_p ?K = td_p tData" "k_tileLength ?K = td_tileLength tData"
    by (simp_all add: Init_def)
  have "\<not> ?c \<le> u"
    using u by simp
  then have "Process_outer (Suc (unat ?n)) ?K u = Some k'"
    using run by (simp add: pdist_def Process_def f del: Process_outer.simps)
  then obtain cs where cs: "k' = foldl call_step ?K cs"
    using Process_outer_foldl by blast
  then have calls: "k_calls k' = cs"
    by (simp add: f)
  have inj: "inj_on (\<lambda>(i, j). outIdx_of (k_n ?K) i j) (set cs)"
    using small sub unfolding f calls by (rule outIdx_of_inj_on)
  have "k_yRaw k' (unat (outIdx_of (k_n ?K) i j))
        = vector_core (k_p ?K) (unat (k_tileLength ?K)) (CopyRow ?K i) (CopyRow ?K j)"
    unfolding cs using dist inj mem unfolding calls by (rule foldl_call_step_yRaw)
  then have "k_yRaw k' (unat (outIdx_of ?n i j))
        = vector_core (td_p tData) (unat (td_tileLength tData))
            (DataCopy x (unat (i * td_m tData)) (unat (td_tileLength tData)))
            (DataCopy x (unat (j * td_m tData)) (unat (td_tileLength tData)))"
    by (simp add: f CopyRow_def Init_def)
  then show ?thesis
    using u run mem by blast
qed


section \<open>The distance of two staged rows\<close>

lemma foldr_fadd_Fin: "foldr fadd (map Fin xs) (Fin 0) = Fin (sum_list xs)"
  by (induction xs) simp_all

lemma ReduceSum_Fin: "length xs = cnt \<Longrightarrow> ReduceSum (map Fin xs) cnt = [Fin (sum_list xs)]"
  by (simp add: ReduceSum_def foldr_fadd_Fin)

lemma CopyRow_length [simp]: "length (CopyRow k r) = unat (k_tileLength k)"
  by (simp add: CopyRow_def DataCopy_def DataCopy_idx_def)

lemma abs_diff_Fin:
  assumes "length a = cnt" and "length b = cnt"
  shows "Abs (Sub (map Fin a) (map Fin b) cnt) cnt = map Fin (map2 (\<lambda>u v. \<bar>u - v\<bar>) a b)"
  using assms by (simp add: Abs_def Sub_def zip_map_map case_prod_unfold)

lemma vector_core_p1:
  assumes "length a = cnt" and "length b = cnt"
  shows "vector_core (Fin 1) cnt (map Fin a) (map Fin b) = Fin (\<Sum>(u, v)\<leftarrow>zip a b. \<bar>u - v\<bar>)"
proof -
  let ?d = "map2 (\<lambda>u v. \<bar>u - v\<bar>) a b"
  have len: "length ?d = cnt" using assms by simp
  have "vector_core (Fin 1) cnt (map Fin a) (map Fin b)
        = ReduceSum (Abs (Sub (map Fin a) (map Fin b) cnt) cnt) cnt ! 0"
    by (simp add: vector_core_def Let_def)
  also have "\<dots> = ReduceSum (map Fin ?d) cnt ! 0"
    by (simp only: abs_diff_Fin [OF assms])
  also have "\<dots> = Fin (sum_list ?d)"
    by (simp only: ReduceSum_Fin [OF len] nth_Cons_0)
  finally show ?thesis .
qed

lemma vector_core_p2:
  assumes "length a = cnt" and "length b = cnt"
  shows "vector_core (Fin 2) cnt (map Fin a) (map Fin b) = Fin (sqrt (\<Sum>(u, v)\<leftarrow>zip a b. (u - v)\<^sup>2))"
proof -
  let ?d = "map2 (\<lambda>u v. \<bar>u - v\<bar>) a b"
  let ?s = "map2 (\<lambda>u v. (u - v)\<^sup>2) a b"
  have len: "length ?d = cnt" and len2: "length ?s = cnt" using assms by simp_all
  have sq: "Mul (map Fin ?d) (map Fin ?d) cnt = map Fin ?s"
    using len by (simp add: Mul_def zip_map_map zip_same_conv_map power2_eq_square case_prod_unfold)
  have nonneg: "0 \<le> sum_list ?s"
    by (rule sum_list_nonneg) auto
  have "vector_core (Fin 2) cnt (map Fin a) (map Fin b)
        = Sqrt (ReduceSum (Mul (Abs (Sub (map Fin a) (map Fin b) cnt) cnt)
                               (Abs (Sub (map Fin a) (map Fin b) cnt) cnt) cnt) cnt) 1 ! 0"
    by (simp add: vector_core_def Let_def)
  also have "\<dots> = Sqrt (ReduceSum (map Fin ?s) cnt) 1 ! 0"
    by (simp only: abs_diff_Fin [OF assms] sq)
  also have "\<dots> = Sqrt [Fin (sum_list ?s)] 1 ! 0"
    by (simp only: ReduceSum_Fin [OF len2])
  also have "\<dots> = Fin (sqrt (sum_list ?s))"
    using nonneg by (simp add: Sqrt_def)
  finally show ?thesis .
qed

lemma vector_core_generic:
  assumes "q \<noteq> 1" and "q \<noteq> 2" and "length a = cnt" and "length b = cnt"
  shows "vector_core (Fin q) cnt (map Fin a) (map Fin b)
         = Fin (\<Sum>(u, v)\<leftarrow>zip a b. (\<bar>u - v\<bar> + 1 / 10 ^ 20) powr q)"
proof -
  let ?d = "map2 (\<lambda>u v. \<bar>u - v\<bar>) a b"
  let ?e = "map2 (\<lambda>u v. (\<bar>u - v\<bar> + 1 / 10 ^ 20) powr q) a b"
  have len: "length ?d = cnt" and len2: "length ?e = cnt" using assms by simp_all
  have pos: "0 < \<bar>u - v\<bar> + 1 / 10 ^ 20" for u v :: real
    by (rule add_nonneg_pos) simp_all
  have el: "fexp (fmul (fln (fadd (Fin \<bar>u - v\<bar>) eps_guard)) (Fin q))
            = Fin ((\<bar>u - v\<bar> + 1 / 10 ^ 20) powr q)" for u v :: real
    using pos [of u v] by (simp add: eps_guard_def powr_def mult.commute)
  have ex: "Exp (Muls (Ln (Adds (map Fin ?d) eps_guard cnt) cnt) (Fin q) cnt) cnt = map Fin ?e"
    using len by (simp add: Exp_def Muls_def Ln_def Adds_def el case_prod_unfold)
  have "vector_core (Fin q) cnt (map Fin a) (map Fin b)
        = ReduceSum (Exp (Muls (Ln (Adds (Abs (Sub (map Fin a) (map Fin b) cnt) cnt)
                                      eps_guard cnt) cnt) (Fin q) cnt) cnt) cnt ! 0"
    using assms(1,2) by (simp add: vector_core_def Let_def)
  also have "\<dots> = ReduceSum (map Fin ?e) cnt ! 0"
    by (simp only: abs_diff_Fin [OF assms(3,4)] ex)
  also have "\<dots> = Fin (sum_list ?e)"
    by (simp only: ReduceSum_Fin [OF len2] nth_Cons_0)
  finally show ?thesis .
qed

lemma upt_0_8: "[0 ..< 8] = [0, 1, 2, 3, 4, 5, 6, 7 :: nat]"
  by code_simp


section \<open>The infinite exponent\<close>














lemma DataCopy_length [simp]: "length (DataCopy gm off cnt) = cnt"
  by (simp add: DataCopy_def DataCopy_idx_def)


lemma upto_0_1: "[0 .. 1 :: int] = [0, 1]"
  by code_simp


lemma upt_2_10: "[2 ..< 10] = [2, 3, 4, 5, 6, 7, 8, 9 :: nat]"
  by code_simp

lemma upt_4_12: "[4 ..< 12] = [4, 5, 6, 7, 8, 9, 10, 11 :: nat]"
  by code_simp

lemma upt_6_14: "[6 ..< 14] = [6, 7, 8, 9, 10, 11, 12, 13 :: nat]"
  by code_simp



lemma u32_less_1: "(u :: u32) < 1 \<Longrightarrow> u = 0"
  by (simp add: word_less_nat_alt word_unat_eq_iff)





section \<open>Rows that are not a multiple of the alignment\<close>

lemma sqrt_ne_5:
  fixes s :: real
  assumes "25 < s"
  shows "sqrt s \<noteq> 5"
proof -
  have "sqrt 25 < sqrt s" using assms by (simp only: real_sqrt_less_iff)
  moreover have "sqrt 25 = (5 :: real)"
    by (rule real_sqrt_unique) simp_all
  ultimately show ?thesis by simp
qed

lemma pair01_not_5:
  "vector_core (Fin 2) 8 [Fin 0, Fin 0, Fin 3, Fin 4, Fin 0, Fin 0, Fin 6, Fin 8]
     [Fin 3, Fin 4, Fin 0, Fin 0, Fin 6, Fin 8, e8, e9] \<noteq> Fin 5"
proof (cases "\<exists>a b. e8 = Fin a \<and> e9 = Fin b")
  case True
  then obtain a b where e: "e8 = Fin a" "e9 = Fin b" by blast
  have "vector_core (Fin 2) 8 (map Fin [0, 0, 3, 4, 0, 0, 6, 8]) (map Fin [3, 4, 0, 0, 6, 8, a, b])
        = Fin (sqrt (\<Sum>(u, v)\<leftarrow>zip [0, 0, 3, 4, 0, 0, 6, 8] [3, 4, 0, 0, 6, 8, a, b]. (u - v)\<^sup>2))"
    by (rule vector_core_p2) simp_all
  moreover have "25 < (\<Sum>(u, v)\<leftarrow>zip [0, 0, 3, 4, 0, 0, 6, 8] [3, 4, 0, 0, 6, 8, a, b]. (u - v)\<^sup>2)"
  proof -
    have "0 \<le> (6 - a)\<^sup>2 + (8 - b)\<^sup>2" by simp
    then show ?thesis by (simp add: add_pos_nonneg)
  qed
  ultimately show ?thesis
    using sqrt_ne_5 by (simp add: e)
next
  case False
  then show ?thesis
    by (cases e8; cases e9)
       (simp_all add: vector_core_def Sub_def Abs_def Mul_def ReduceSum_def Sqrt_def Let_def)
qed


text \<open>
  Claim C3 at its end-to-end scenario (\<open>n = 4\<close>, \<open>m = 2\<close>, \<open>p = 2\<close>, rows \<open>[0,0]\<close>,
  \<open>[3,4]\<close>, \<open>[0,0]\<close>, \<open>[6,8]\<close>). The planner gives one unit and \<open>tileLength = 8\<close>; the unit
  makes the six calls in order, and whatever lies behind the tensor in memory, output
  element 0 (the pair of rows \<open>[0,0]\<close> and \<open>[3,4]\<close>) is not 5: the staged rows are eight
  elements long and reach into the rows that follow.
\<close>

theorem pdist_end_to_end:
  "\<exists>r k'. TilingFunc \<lparr>attr_p = Some (Fin 2), shape_dim0 = 4, shape_dim1 = 2,
                       input_dtype = DT_FLOAT, platformInfo = Some 8\<rparr> = Some r \<and>
     blockDim r = 1 \<and> td_tileLength (tiling r) = 8 \<and>
     pdist 5 (tensor_mem [0, 0, 3, 4, 0, 0, 6, 8] beyond) y (tiling r) 0 = Some k' \<and>
     k_calls k' = [(0, 1), (0, 2), (0, 3), (1, 2), (1, 3), (2, 3)] \<and>
     k_yRaw k' 0 \<noteq> Fin 5"
proof -
  let ?td = "\<lparr>td_n = 4, td_m = 2, td_p = Fin 2, td_tileLength = 8, td_usedCoreNum = 1,
              td_tilingKey = 1\<rparr> :: PdistTilingData"
  let ?x = "tensor_mem [0, 0, 3, 4, 0, 0, 6, 8] beyond"
  let ?K = "Init ?x y ?td 0"
  have tf: "TilingFunc \<lparr>attr_p = Some (Fin 2), shape_dim0 = 4, shape_dim1 = 2,
                       input_dtype = DT_FLOAT, platformInfo = Some 8\<rparr>
            = Some \<lparr>blockDim = 1, tiling = ?td\<rparr>"
    by (simp add: TilingFunc_def tileLength_of_def typeSize_of_def Let_def)
  have f: "k_n ?K = 4" "k_totalCoreNum ?K = 1" "k_coreId ?K = 0" "k_calls ?K = []"
    "k_p ?K = Fin 2" "k_tileLength ?K = 8" "k_m ?K = 2" "k_xGm ?K = ?x"
    by (simp_all add: Init_def)
  have cmp: "\<not> (1 :: u32) \<le> 0"
    by simp
  obtain k' where run: "pdist 5 ?x y ?td 0 = Some k'"
    and k': "k' = ComputeAndSave (ComputeAndSave (ComputeAndSave (ComputeAndSave
               (ComputeAndSave (ComputeAndSave ?K (CopyRow ?K 0) 0 1) (CopyRow ?K 0) 0 2)
               (CopyRow ?K 0) 0 3) (CopyRow ?K 1) 1 2) (CopyRow ?K 1) 1 3) (CopyRow ?K 2) 2 3"
    unfolding pdist_def Process_def
    by (simp add: f cmp Process_outer_numeral Process_inner.simps)
  have calls: "k_calls k' = [(0, 1), (0, 2), (0, 3), (1, 2), (1, 3), (2, 3)]"
    by (simp add: k' f)
  have rows: "CopyRow ?K 0 = [Fin 0, Fin 0, Fin 3, Fin 4, Fin 0, Fin 0, Fin 6, Fin 8]"
    "CopyRow ?K 1 = [Fin 3, Fin 4, Fin 0, Fin 0, Fin 6, Fin 8, beyond 8, beyond 9]"
    by (simp_all add: CopyRow_def DataCopy_def DataCopy_idx_def f tensor_mem_def upt_0_8 upt_2_10)
  have "k_yRaw k' 0 = vector_core (Fin 2) 8 (CopyRow ?K 0) (CopyRow ?K 1)"
    by (simp add: k' k_yRaw_ComputeAndSave f outIdx_of_def)
  then have "k_yRaw k' 0 \<noteq> Fin 5"
    by (simp only: rows pair01_not_5 not_False_eq_True)
  then show ?thesis
    using tf run calls by simp
qed

text \<open>
  Claim C5 at \<open>n = 5\<close>, \<open>m = 2\<close>, \<open>p = 1\<close>, rows \<open>[0,0]\<close>, \<open>[3,4]\<close>, \<open>[0,0]\<close>, \<open>[6,8]\<close>,
  \<open>[1,1]\<close>: the two fetches for the pair \<open>(0, 1)\<close> stay inside the tensor, the
  reduction over the \<open>tileLength = 8\<close> staged elements is 40, the reduction over the
  first \<open>m = 2\<close> elements is 7.
\<close>

theorem padding_not_neutral:
  "\<exists>r. TilingFunc \<lparr>attr_p = Some (Fin 1), shape_dim0 = 5, shape_dim1 = 2,
                    input_dtype = DT_FLOAT, platformInfo = Some 8\<rparr> = Some r \<and>
     td_m (tiling r) = 2 \<and> td_tileLength (tiling r) = 8 \<and>
     set (CopyRow_idx (Init (tensor_mem [0, 0, 3, 4, 0, 0, 6, 8, 1, 1] beyond) y (tiling r) 0) 0)
       \<union> set (CopyRow_idx (Init (tensor_mem [0, 0, 3, 4, 0, 0, 6, 8, 1, 1] beyond) y (tiling r) 0) 1)
       = {0 ..< 10} \<and>
     vector_core (Fin 1) 8
       (CopyRow (Init (tensor_mem [0, 0, 3, 4, 0, 0, 6, 8, 1, 1] beyond) y (tiling r) 0) 0)
       (CopyRow (Init (tensor_mem [0, 0, 3, 4, 0, 0, 6, 8, 1, 1] beyond) y (tiling r) 0) 1) = Fin 40 \<and>
     vector_core (Fin 1) 2
       (CopyRow (Init (tensor_mem [0, 0, 3, 4, 0, 0, 6, 8, 1, 1] beyond) y (tiling r) 0) 0)
       (CopyRow (Init (tensor_mem [0, 0, 3, 4, 0, 0, 6, 8, 1, 1] beyond) y (tiling r) 0) 1) = Fin 7"
proof -
  let ?td = "\<lparr>td_n = 5, td_m = 2, td_p = Fin 1, td_tileLength = 8, td_usedCoreNum = 1,
              td_tilingKey = 1\<rparr> :: PdistTilingData"
  let ?K = "Init (tensor_mem [0, 0, 3, 4, 0, 0, 6, 8, 1, 1] beyond) y ?td 0"
  have tf: "TilingFunc \<lparr>attr_p = Some (Fin 1), shape_dim0 = 5, shape_dim1 = 2,
                       input_dtype = DT_FLOAT, platformInfo = Some 8\<rparr>
            = Some \<lparr>blockDim = 1, tiling = ?td\<rparr>"
    by (simp add: TilingFunc_def tileLength_of_def typeSize_of_def Let_def)
  have idx: "CopyRow_idx ?K 0 = [0, 1, 2, 3, 4, 5, 6, 7]" "CopyRow_idx ?K 1 = [2, 3, 4, 5, 6, 7, 8, 9]"
    by (simp_all add: CopyRow_idx_def DataCopy_idx_def Init_def upt_0_8 upt_2_10)
  have cover: "set (CopyRow_idx ?K 0) \<union> set (CopyRow_idx ?K 1) = {0 ..< 10}"
    unfolding idx by (auto simp: numeral_eq_Suc less_Suc_eq)
  have rows: "CopyRow ?K 0 = map Fin [0, 0, 3, 4, 0, 0, 6, 8]"
    "CopyRow ?K 1 = map Fin [3, 4, 0, 0, 6, 8, 1, 1]"
    by (simp_all add: CopyRow_def DataCopy_def DataCopy_idx_def Init_def tensor_mem_def
          upt_0_8 upt_2_10)
  have full: "vector_core (Fin 1) 8 (CopyRow ?K 0) (CopyRow ?K 1) = Fin 40"
    unfolding rows by (subst vector_core_p1) simp_all
  have first: "vector_core (Fin 1) 2 (CopyRow ?K 0) (CopyRow ?K 1) = Fin 7"
    unfolding rows
    by (simp add: vector_core_def Sub_def Abs_def ReduceSum_def Let_def)
  show ?thesis
    using tf cover full first by simp
qed

lemma generic_excess:
  fixes e :: real
  assumes "0 < e"
  shows "432 < 2 * (6 + e) ^ 3 + 6 * e ^ 3"
proof -
  have "(6 :: real) ^ 3 < (6 + e) ^ 3"
    by (rule power_strict_mono) (use assms in simp_all)
  moreover have "(6 :: real) ^ 3 = 216"
    by simp
  moreover have "0 < e ^ 3"
    using assms by simp
  ultimately show ?thesis
    by linarith
qed

text \<open>
  Claim C4 at \<open>n = 5\<close>, \<open>m = 2\<close>, \<open>p = 3\<close>, rows \<open>[1,1]\<close>, \<open>[1,1]\<close>, \<open>[1,1]\<close>, \<open>[1,1]\<close>,
  \<open>[7,7]\<close>, with NaNs behind the tensor. The planner gives one unit and
  \<open>tileLength = 8\<close>. The rows 0 and 1 are equal and the two fetches for the pair stay
  inside the tensor: the sum over the elements of the two rows is \<open>2 * (1e-20)^3\<close>, the
  element written for the pair is the sum over the eight staged elements, which takes
  in the two differences of 6 with the last row (\<open>2 * (6 + 1e-20)^3 + 6 * (1e-20)^3\<close>
  without rounding, stated here as above 400). The rows 2 and 3 are equal too, and
  the element written for that pair is a NaN.
\<close>

theorem pdist_generic_unaligned:
  "\<exists>r k'. TilingFunc \<lparr>attr_p = Some (Fin 3), shape_dim0 = 5, shape_dim1 = 2,
                       input_dtype = DT_FLOAT, platformInfo = Some 8\<rparr> = Some r \<and>
     td_p (tiling r) = Fin 3 \<and> td_m (tiling r) = 2 \<and> td_tileLength (tiling r) = 8 \<and>
     pdist 6 (tensor_mem [1, 1, 1, 1, 1, 1, 1, 1, 7, 7] (\<lambda>_. NaN)) y (tiling r) 0 = Some k' \<and>
     cpu_row (tensor_mem [1, 1, 1, 1, 1, 1, 1, 1, 7, 7] (\<lambda>_. NaN)) 2 0 = map Fin [1, 1] \<and>
     cpu_row (tensor_mem [1, 1, 1, 1, 1, 1, 1, 1, 7, 7] (\<lambda>_. NaN)) 2 1 = map Fin [1, 1] \<and>
     cpu_row (tensor_mem [1, 1, 1, 1, 1, 1, 1, 1, 7, 7] (\<lambda>_. NaN)) 2 2 = map Fin [1, 1] \<and>
     cpu_row (tensor_mem [1, 1, 1, 1, 1, 1, 1, 1, 7, 7] (\<lambda>_. NaN)) 2 3 = map Fin [1, 1] \<and>
     spec_generic_sum 3 [1, 1] [1, 1] = 2 * (1 / 10 ^ 20) ^ 3 \<and>
     spec_generic_sum 3 [1, 1] [1, 1] < 1 \<and>
     set (CopyRow_idx (Init (tensor_mem [1, 1, 1, 1, 1, 1, 1, 1, 7, 7] (\<lambda>_. NaN)) y (tiling r) 0) 0)
       \<union> set (CopyRow_idx (Init (tensor_mem [1, 1, 1, 1, 1, 1, 1, 1, 7, 7] (\<lambda>_. NaN)) y (tiling r) 0) 1)
       = {0 ..< 10} \<and>
     (0, 1) \<in> set (k_calls k') \<and> unat (outIdx_of 5 0 1) = 0 \<and>
     (\<exists>v. k_yRaw k' 0 = Fin v \<and> 400 < v) \<and>
     k_yRaw k' 0 \<noteq> Fin (spec_generic_sum 3 [1, 1] [1, 1]) \<and>
     (2, 3) \<in> set (k_calls k') \<and> unat (outIdx_of 5 2 3) = 7 \<and>
     k_yRaw k' 7 = NaN"
proof -
  let ?X = "tensor_mem [1, 1, 1, 1, 1, 1, 1, 1, 7, 7] (\<lambda>_. NaN)"
  let ?td = "\<lparr>td_n = 5, td_m = 2, td_p = Fin 3, td_tileLength = 8, td_usedCoreNum = 1,
              td_tilingKey = 1\<rparr> :: PdistTilingData"
  let ?K = "Init ?X y ?td 0"
  have tf: "TilingFunc \<lparr>attr_p = Some (Fin 3), shape_dim0 = 5, shape_dim1 = 2,
                       input_dtype = DT_FLOAT, platformInfo = Some 8\<rparr>
            = Some \<lparr>blockDim = 1, tiling = ?td\<rparr>"
    by (simp add: TilingFunc_def tileLength_of_def typeSize_of_def Let_def)
  have c: "1 \<le> td_usedCoreNum ?td"
    and fit: "unat (td_n ?td) + unat (td_usedCoreNum ?td) \<le> 2 ^ 32"
    and small: "unat (td_n ?td) \<le> 2 ^ 31"
    and ij1: "(0 :: u32) < 1 \<and> 1 < td_n ?td" and ij2: "(2 :: u32) < 3 \<and> 3 < td_n ?td"
    by (simp_all add: word_less_nat_alt)
  have rows: "cpu_row ?X 2 0 = map Fin [1, 1]" "cpu_row ?X 2 1 = map Fin [1, 1]"
    "cpu_row ?X 2 2 = map Fin [1, 1]" "cpu_row ?X 2 3 = map Fin [1, 1]"
    by (simp_all add: cpu_row_def upto_0_1 tensor_mem_def)
  have spec: "spec_generic_sum 3 [1, 1] [1, 1] = 2 * (1 / 10 ^ 20) ^ 3"
    by (simp add: spec_generic_sum_def)
  have e3: "0 < (1 / 10 ^ 20 :: real) ^ 3" "(1 / 10 ^ 20 :: real) ^ 3 < 1 / 2"
    by (simp_all add: power_divide)
  have big: "432 < 2 * (6 + 1 / 10 ^ 20) ^ 3 + 6 * (1 / 10 ^ 20 :: real) ^ 3"
    by (rule generic_excess) simp
  have small_spec: "spec_generic_sum 3 [1, 1] [1, 1] < 1"
    unfolding spec using e3 by linarith
  have idx: "CopyRow_idx ?K 0 = [0, 1, 2, 3, 4, 5, 6, 7]" "CopyRow_idx ?K 1 = [2, 3, 4, 5, 6, 7, 8, 9]"
    by (simp_all add: CopyRow_idx_def DataCopy_idx_def Init_def upt_0_8 upt_2_10)
  have cover: "set (CopyRow_idx ?K 0) \<union> set (CopyRow_idx ?K 1) = {0 ..< 10}"
    unfolding idx by (auto simp: numeral_eq_Suc less_Suc_eq)
  have i01: "unat (outIdx_of 5 0 1) = 0" and i23: "unat (outIdx_of 5 2 3) = 7"
    by (simp_all add: outIdx_of_def)
  have s0: "DataCopy ?X (unat (0 * td_m ?td)) (unat (td_tileLength ?td))
             = map Fin [1, 1, 1, 1, 1, 1, 1, 1]"
    and s1: "DataCopy ?X (unat (1 * td_m ?td)) (unat (td_tileLength ?td))
             = map Fin [1, 1, 1, 1, 1, 1, 7, 7]"
    and s2: "DataCopy ?X (unat (2 * td_m ?td)) (unat (td_tileLength ?td))
             = [Fin 1, Fin 1, Fin 1, Fin 1, Fin 7, Fin 7, NaN, NaN]"
    and s3: "DataCopy ?X (unat (3 * td_m ?td)) (unat (td_tileLength ?td))
             = [Fin 1, Fin 1, Fin 7, Fin 7, NaN, NaN, NaN, NaN]"
    by (simp_all add: DataCopy_def DataCopy_idx_def tensor_mem_def upt_0_8 upt_2_10 upt_4_12
          upt_6_14)
  from pdist_output [where x = ?X and y = y, OF c fit small ij1]
  obtain u k' where u': "u < td_usedCoreNum ?td"
    and run': "pdist (Suc (unat (td_n ?td))) ?X y ?td u = Some k'"
    and mem1: "(0, 1) \<in> set (k_calls k')"
    and out1': "k_yRaw k' (unat (outIdx_of (td_n ?td) 0 1))
       = vector_core (td_p ?td) (unat (td_tileLength ?td))
           (DataCopy ?X (unat (0 * td_m ?td)) (unat (td_tileLength ?td)))
           (DataCopy ?X (unat (1 * td_m ?td)) (unat (td_tileLength ?td)))"
    by blast
  from pdist_output [where x = ?X and y = y, OF c fit small ij2]
  obtain u2 k2 where u2': "u2 < td_usedCoreNum ?td"
    and run2': "pdist (Suc (unat (td_n ?td))) ?X y ?td u2 = Some k2"
    and mem2': "(2, 3) \<in> set (k_calls k2)"
    and out2': "k_yRaw k2 (unat (outIdx_of (td_n ?td) 2 3))
       = vector_core (td_p ?td) (unat (td_tileLength ?td))
           (DataCopy ?X (unat (2 * td_m ?td)) (unat (td_tileLength ?td)))
           (DataCopy ?X (unat (3 * td_m ?td)) (unat (td_tileLength ?td)))"
    by blast
  have "u = 0" "u2 = 0"
    using u' u2' by (simp_all add: u32_less_1)
  then have run: "pdist 6 ?X y ?td 0 = Some k'" and same: "k2 = k'"
    using run' run2' by simp_all
  have "vector_core (Fin 3) 8 (map Fin [1, 1, 1, 1, 1, 1, 1, 1]) (map Fin [1, 1, 1, 1, 1, 1, 7, 7])
        = Fin (\<Sum>(u, v)\<leftarrow>zip [1, 1, 1, 1, 1, 1, 1, 1] [1, 1, 1, 1, 1, 1, 7, 7 :: real].
                 (\<bar>u - v\<bar> + 1 / 10 ^ 20) powr 3)"
    by (rule vector_core_generic) simp_all
  also have "\<dots> = Fin (2 * (6 + 1 / 10 ^ 20) ^ 3 + 6 * (1 / 10 ^ 20) ^ 3)"
    by simp
  finally have v1: "vector_core (Fin 3) 8 (map Fin [1, 1, 1, 1, 1, 1, 1, 1])
      (map Fin [1, 1, 1, 1, 1, 1, 7, 7]) = Fin (2 * (6 + 1 / 10 ^ 20) ^ 3 + 6 * (1 / 10 ^ 20) ^ 3)" .
  have out1: "k_yRaw k' 0 = Fin (2 * (6 + 1 / 10 ^ 20) ^ 3 + 6 * (1 / 10 ^ 20) ^ 3)"
  proof -
    have "k_yRaw k' (unat (outIdx_of (td_n ?td) 0 1))
          = vector_core (td_p ?td) (unat (td_tileLength ?td))
              (map Fin [1, 1, 1, 1, 1, 1, 1, 1]) (map Fin [1, 1, 1, 1, 1, 1, 7, 7])"
      using out1' by (simp only: s0 s1)
    also have "\<dots> = vector_core (Fin 3) 8
              (map Fin [1, 1, 1, 1, 1, 1, 1, 1]) (map Fin [1, 1, 1, 1, 1, 1, 7, 7])"
      by simp
    also note v1
    finally show ?thesis
      by (simp add: i01)
  qed
  have val: "\<exists>v. k_yRaw k' 0 = Fin v \<and> 400 < v"
    unfolding out1 using big by simp
  have ne: "k_yRaw k' 0 \<noteq> Fin (spec_generic_sum 3 [1, 1] [1, 1])"
    unfolding out1 using big small_spec by simp
  have v2: "vector_core (Fin 3) 8 [Fin 1, Fin 1, Fin 1, Fin 1, Fin 7, Fin 7, NaN, NaN]
      [Fin 1, Fin 1, Fin 7, Fin 7, NaN, NaN, NaN, NaN] = NaN"
    by (simp add: vector_core_def Let_def Sub_def Abs_def Adds_def Ln_def Muls_def Exp_def
          ReduceSum_def eps_guard_def)
  have out2: "k_yRaw k' 7 = NaN"
  proof -
    have "k_yRaw k' (unat (outIdx_of (td_n ?td) 2 3))
          = vector_core (td_p ?td) (unat (td_tileLength ?td))
              [Fin 1, Fin 1, Fin 1, Fin 1, Fin 7, Fin 7, NaN, NaN]
              [Fin 1, Fin 1, Fin 7, Fin 7, NaN, NaN, NaN, NaN]"
      using out2' unfolding same by (simp only: s2 s3)
    also have "\<dots> = vector_core (Fin 3) 8
              [Fin 1, Fin 1, Fin 1, Fin 1, Fin 7, Fin 7, NaN, NaN]
              [Fin 1, Fin 1, Fin 7, Fin 7, NaN, NaN, NaN, NaN]"
      by simp
    also note v2
    finally show ?thesis
      by (simp add: i23)
  qed
  have mem2: "(2, 3) \<in> set (k_calls k')"
    using mem2' unfolding same .
  show ?thesis
    using tf run rows spec small_spec cover mem1 i01 val ne mem2 i23 out2 by simp
qed

text \<open>
  Claim C10 at \<open>n = 4\<close>, \<open>m = 2\<close>: the input has \<open>n * m = 8\<close> elements, and the fetch of
  the last row reads the elements 6 to 13.
\<close>

theorem CopyRow_last_row_overrun:
  "\<exists>r. TilingFunc \<lparr>attr_p = Some (Fin 2), shape_dim0 = 4, shape_dim1 = 2,
                    input_dtype = DT_FLOAT, platformInfo = Some 8\<rparr> = Some r \<and>
     unat (td_n (tiling r)) * unat (td_m (tiling r)) = 8 \<and>
     CopyRow_idx (Init x y (tiling r) 0) 3 = [6, 7, 8, 9, 10, 11, 12, 13]"
  by (simp add: TilingFunc_def tileLength_of_def typeSize_of_def Let_def
        CopyRow_idx_def DataCopy_idx_def Init_def)

text \<open>
  Claim C8 at a 16-bit input of \<open>n = 2\<close> rows of \<open>m = 16\<close> elements (64 bytes, row 1 in
  bytes 32 to 63): the planner gives \<open>tileLength = 16\<close>, the kernel's fetch of row 0
  reads the bytes 0 to 63 as sixteen \<^verbatim>\<open>float\<close>s, its fetch of row 1 the bytes 64 to 127,
  and its one result is stored as four bytes where the output element has two.
\<close>

theorem float16_read_as_float:
  "\<exists>r. TilingFunc \<lparr>attr_p = Some (Fin 2), shape_dim0 = 2, shape_dim1 = 16,
                    input_dtype = DT_FLOAT16, platformInfo = Some 8\<rparr> = Some r \<and>
     td_tileLength (tiling r) = 16 \<and>
     tensor_row_bytes DT_FLOAT16 16 0 = (0, 32) \<and>
     tensor_row_bytes DT_FLOAT16 16 1 = (32, 64) \<and>
     CopyRow_bytes (Init x y (tiling r) 0) 0 = (0, 64) \<and>
     CopyRow_bytes (Init x y (tiling r) 0) 1 = (64, 128) \<and>
     elementSize DT_FLOAT16 = 2 \<and>
     yRaw_store_bytes (outIdx_of (td_n (tiling r)) 0 1) = (0, 4)"
  by (simp add: TilingFunc_def tileLength_of_def typeSize_of_def Let_def CopyRow_bytes_def
        tensor_row_bytes_def elementSize_def sizeof_float_def Init_def yRaw_store_bytes_def
        outIdx_of_def)

end
